theory Spec2Isabelle
  imports Main "HOL-Library.Multiset"
begin

section \<open>Data model of the export graph\<close>

text \<open>
  The export resolution phase (\<^verbatim>\<open>ExportsResolution\<close>) works on compiler modules. A module is
  identified by a number here. An import target is a resolved module or an entity (type,
  constructor, module method) that lives in a module; \<^verbatim>\<open>target.module.unsafeAsModule()\<close> is
  the module it belongs to. All module references are taken to be concrete, so that
  \<^verbatim>\<open>unsafeAsModule\<close> does not fail.
\<close>

type_synonym Module = nat

datatype ImportTarget =
    ResolvedModule Module
  | ResolvedType Module string
  | ResolvedConstructor Module string string
  | ResolvedModuleMethod Module string

fun unsafeAsModule :: "ImportTarget \<Rightarrow> Module" where
  "unsafeAsModule (ResolvedModule m) = m"
| "unsafeAsModule (ResolvedType m _) = m"
| "unsafeAsModule (ResolvedConstructor m _ _) = m"
| "unsafeAsModule (ResolvedModuleMethod m _) = m"

text \<open>The case class \<^verbatim>\<open>ExportedModule(target, exportedAs, symbols)\<close>.\<close>

datatype ExportedModule =
  ExportedModule (target: ImportTarget) (exportedAs: "string option") (symbols: "string list")

text \<open>
  \<^verbatim>\<open>Edge(exporter, symbols, exportsAs, exportee)\<close> and \<^verbatim>\<open>Node(target)\<close> with its two mutable
  fields \<^verbatim>\<open>exports\<close> and \<^verbatim>\<open>exportedBy\<close>. The source links nodes and edges by object
  reference; there is exactly one node object per import target (the node table is keyed by
  the target), so a reference to a node is represented by the node's target and the node
  table is the store that holds the mutable fields.
\<close>

datatype Edge =
  Edge (exporter: ImportTarget) (edgeSymbols: "string list") (exportsAs: "string option")
       (exportee: ImportTarget)

datatype Node =
  Node (nodeTarget: ImportTarget) (exports: "Edge list") (exportedBy: "Edge list")

text \<open>
  The node table \<^verbatim>\<open>mutable.Map[ImportTarget, Node]\<close>, kept as an association list in
  insertion order. Scala leaves the iteration order of the table unspecified; the model fixes
  the insertion order. The lemmas about \<^verbatim>\<open>findCycles\<close> and \<^verbatim>\<open>topsort\<close> below are stated for
  every list of nodes with distinct targets, so the theorems that hold for all inputs do not
  depend on this choice; the concrete results computed for example inputs do.
\<close>

type_synonym NodeMap = "(ImportTarget \<times> Node) list"

text \<open>
  What \<^verbatim>\<open>getBindings(m)\<close> gives for a module: \<open>None\<close> when the bindings map is \<^verbatim>\<open>null\<close>,
  otherwise the list \<^verbatim>\<open>bindings.getDirectlyExportedModules\<close>.
\<close>

type_synonym Bindings = "Module \<Rightarrow> ExportedModule list option"

section \<open>buildGraph\<close>

definition getOrElseUpdate :: "NodeMap \<Rightarrow> ImportTarget \<Rightarrow> NodeMap" where
  "getOrElseUpdate nodes t =
     (if t \<in> fst ` set nodes then nodes else nodes @ [(t, Node t [] [])])"

definition setExports :: "NodeMap \<Rightarrow> ImportTarget \<Rightarrow> Edge list \<Rightarrow> NodeMap" where
  "setExports nodes t es =
     map (\<lambda>(k, n). (k, if k = t then Node (nodeTarget n) es (exportedBy n) else n)) nodes"

definition addExportedBy :: "NodeMap \<Rightarrow> Edge \<Rightarrow> NodeMap" where
  "addExportedBy nodes e =
     map (\<lambda>(k, n). (k, if k = exportee e
                        then Node (nodeTarget n) (exports n) (e # exportedBy n)
                        else n)) nodes"

definition directExports :: "Bindings \<Rightarrow> Module \<Rightarrow> ExportedModule list" where
  "directExports getBindings m = (case getBindings m of Some es \<Rightarrow> es | None \<Rightarrow> [])"

definition edgesOf :: "Bindings \<Rightarrow> Module \<Rightarrow> Edge list" where
  "edgesOf getBindings m =
     map (\<lambda>x. Edge (ResolvedModule m) (symbols x) (exportedAs x) (target x))
         (directExports getBindings m)"

text \<open>
  The body of \<^verbatim>\<open>moduleTargets.foreach\<close>: the exported targets get their nodes
  (\<^verbatim>\<open>nodes.getOrElseUpdate\<close>), the module's node gets its \<^verbatim>\<open>exports\<close>, and every new edge is
  prepended to the \<^verbatim>\<open>exportedBy\<close> of its exportee.
\<close>

definition processModule :: "Bindings \<Rightarrow> NodeMap \<Rightarrow> Module \<Rightarrow> NodeMap" where
  "processModule getBindings nodes m =
     (let nodes1 = foldl (\<lambda>ns x. getOrElseUpdate ns (target x)) nodes
                         (directExports getBindings m);
          es = edgesOf getBindings m;
          nodes2 = setExports nodes1 (ResolvedModule m) es
      in foldl addExportedBy nodes2 es)"

definition initialNodes :: "Module list \<Rightarrow> NodeMap" where
  "initialNodes modules = foldl getOrElseUpdate [] (map ResolvedModule modules)"

definition buildNodeMap :: "Bindings \<Rightarrow> Module list \<Rightarrow> NodeMap" where
  "buildNodeMap getBindings modules =
     foldl (processModule getBindings) (initialNodes modules) modules"

definition buildGraph :: "Bindings \<Rightarrow> Module list \<Rightarrow> Node list" where
  "buildGraph getBindings modules = map snd (buildNodeMap getBindings modules)"


section \<open>The graph that buildGraph returns\<close>


definition wfNodes :: "NodeMap \<Rightarrow> bool" where
  "wfNodes ns = (distinct (map fst ns) \<and> (\<forall>(k, n) \<in> set ns. nodeTarget n = k))"

definition exportsAt :: "NodeMap \<Rightarrow> ImportTarget \<Rightarrow> Edge list" where
  "exportsAt ns t = (case map_of ns t of Some n \<Rightarrow> exports n | None \<Rightarrow> [])"

definition exportedByAt :: "NodeMap \<Rightarrow> ImportTarget \<Rightarrow> Edge list" where
  "exportedByAt ns t = (case map_of ns t of Some n \<Rightarrow> exportedBy n | None \<Rightarrow> [])"

lemma keys_map_of: "(k \<in> fst ` set ns) = (map_of ns k \<noteq> None)"
  by (simp add: map_of_eq_None_iff)

lemma keys_getOrElseUpdate: "fst ` set (getOrElseUpdate ns t) = insert t (fst ` set ns)"
  by (auto simp: getOrElseUpdate_def)

lemma wf_getOrElseUpdate: "wfNodes ns \<Longrightarrow> wfNodes (getOrElseUpdate ns t)"
  by (auto simp: getOrElseUpdate_def wfNodes_def)

lemma map_of_getOrElseUpdate:
  "map_of (getOrElseUpdate ns t) k =
     (if k = t \<and> t \<notin> fst ` set ns then Some (Node t [] []) else map_of ns k)"
  by (auto simp: getOrElseUpdate_def map_add_def keys_map_of split: option.splits)

lemma exportsAt_getOrElseUpdate: "exportsAt (getOrElseUpdate ns t) k = exportsAt ns k"
  by (auto simp: exportsAt_def map_of_getOrElseUpdate keys_map_of split: option.splits)

lemma exportedByAt_getOrElseUpdate: "exportedByAt (getOrElseUpdate ns t) k = exportedByAt ns k"
  by (auto simp: exportedByAt_def map_of_getOrElseUpdate keys_map_of split: option.splits)

lemma map_fst_setExports: "map fst (setExports ns t es) = map fst ns"
  by (auto simp: setExports_def)

lemma map_fst_addExportedBy: "map fst (addExportedBy ns e) = map fst ns"
  by (auto simp: addExportedBy_def)

lemma wf_setExports: "wfNodes ns \<Longrightarrow> wfNodes (setExports ns t es)"
  unfolding wfNodes_def map_fst_setExports by (auto simp: setExports_def)

lemma wf_addExportedBy: "wfNodes ns \<Longrightarrow> wfNodes (addExportedBy ns e)"
  unfolding wfNodes_def map_fst_addExportedBy by (auto simp: addExportedBy_def)

lemma map_of_setExports:
  "map_of (setExports ns t es) k =
     map_option (\<lambda>n. if k = t then Node (nodeTarget n) es (exportedBy n) else n) (map_of ns k)"
  unfolding setExports_def by (induction ns) auto

lemma map_of_addExportedBy:
  "map_of (addExportedBy ns e) k =
     map_option (\<lambda>n. if k = exportee e then Node (nodeTarget n) (exports n) (e # exportedBy n) else n)
       (map_of ns k)"
  unfolding addExportedBy_def by (induction ns) auto

lemma exportsAt_setExports:
  "exportsAt (setExports ns t es) k = (if k = t \<and> t \<in> fst ` set ns then es else exportsAt ns k)"
  by (auto simp: exportsAt_def map_of_setExports keys_map_of split: option.splits)

lemma exportedByAt_setExports: "exportedByAt (setExports ns t es) k = exportedByAt ns k"
  by (auto simp: exportedByAt_def map_of_setExports split: option.splits)

lemma exportsAt_addExportedBy: "exportsAt (addExportedBy ns e) k = exportsAt ns k"
  by (auto simp: exportsAt_def map_of_addExportedBy split: option.splits)

lemma exportedByAt_addExportedBy:
  "exportedByAt (addExportedBy ns e) k =
     (if k = exportee e \<and> k \<in> fst ` set ns then e # exportedByAt ns k else exportedByAt ns k)"
  by (auto simp: exportedByAt_def map_of_addExportedBy keys_map_of split: option.splits)


lemma keys_fold_getOrElseUpdate:
  "fst ` set (foldl (\<lambda>ns x. getOrElseUpdate ns (f x)) ns xs) = fst ` set ns \<union> f ` set xs"
  by (induction xs arbitrary: ns) (auto simp: keys_getOrElseUpdate)

lemma wf_fold_getOrElseUpdate:
  "wfNodes ns \<Longrightarrow> wfNodes (foldl (\<lambda>ns x. getOrElseUpdate ns (f x)) ns xs)"
  by (induction xs arbitrary: ns) (auto simp: wf_getOrElseUpdate)

lemma exportsAt_fold_getOrElseUpdate:
  "exportsAt (foldl (\<lambda>ns x. getOrElseUpdate ns (f x)) ns xs) k = exportsAt ns k"
  by (induction xs arbitrary: ns) (auto simp: exportsAt_getOrElseUpdate)

lemma exportedByAt_fold_getOrElseUpdate:
  "exportedByAt (foldl (\<lambda>ns x. getOrElseUpdate ns (f x)) ns xs) k = exportedByAt ns k"
  by (induction xs arbitrary: ns) (auto simp: exportedByAt_getOrElseUpdate)

lemma map_fst_fold_addExportedBy: "map fst (foldl addExportedBy ns es) = map fst ns"
  by (induction es arbitrary: ns) (auto simp: map_fst_addExportedBy)

lemma keys_fold_addExportedBy: "fst ` set (foldl addExportedBy ns es) = fst ` set ns"
  using map_fst_fold_addExportedBy[of ns es] by (metis set_map)

lemma wf_fold_addExportedBy: "wfNodes ns \<Longrightarrow> wfNodes (foldl addExportedBy ns es)"
  by (induction es arbitrary: ns) (auto simp: wf_addExportedBy)

lemma exportsAt_fold_addExportedBy: "exportsAt (foldl addExportedBy ns es) k = exportsAt ns k"
  by (induction es arbitrary: ns) (auto simp: exportsAt_addExportedBy)

lemma exportedByAt_fold_addExportedBy:
  "k \<in> fst ` set ns \<Longrightarrow>
   exportedByAt (foldl addExportedBy ns es) k
     = rev (filter (\<lambda>e. exportee e = k) es) @ exportedByAt ns k"
proof (induction es arbitrary: ns)
  case Nil
  then show ?case by simp
next
  case (Cons e es)
  have "k \<in> fst ` set (addExportedBy ns e)"
    using Cons.prems map_fst_addExportedBy[of ns e] by (metis set_map)
  from Cons.IH[OF this] show ?case
    using Cons.prems by (auto simp: exportedByAt_addExportedBy)
qed

lemma exportedByAt_not_key: "k \<notin> fst ` set ns \<Longrightarrow> exportedByAt ns k = []"
  by (simp add: exportedByAt_def keys_map_of)

lemma exportsAt_not_key: "k \<notin> fst ` set ns \<Longrightarrow> exportsAt ns k = []"
  by (simp add: exportsAt_def keys_map_of)

lemma exportee_edgesOf: "exportee ` set (edgesOf b m) = target ` set (directExports b m)"
  by (force simp: edgesOf_def)

lemma exporter_edgesOf: "e \<in> set (edgesOf b m) \<Longrightarrow> exporter e = ResolvedModule m"
  by (auto simp: edgesOf_def)

lemma keys_processModule:
  "fst ` set (processModule b ns m) = fst ` set ns \<union> target ` set (directExports b m)"
  unfolding processModule_def Let_def keys_fold_addExportedBy
  using map_fst_setExports[of "foldl (\<lambda>ns x. getOrElseUpdate ns (target x)) ns (directExports b m)" "ResolvedModule m" "edgesOf b m"]
  by (metis keys_fold_getOrElseUpdate set_map)

lemma wf_processModule: "wfNodes ns \<Longrightarrow> wfNodes (processModule b ns m)"
  unfolding processModule_def Let_def
  by (intro wf_fold_addExportedBy wf_setExports wf_fold_getOrElseUpdate)

lemma exportsAt_processModule:
  "ResolvedModule m \<in> fst ` set ns \<Longrightarrow>
   exportsAt (processModule b ns m) k = (if k = ResolvedModule m then edgesOf b m else exportsAt ns k)"
  unfolding processModule_def Let_def
  by (simp add: exportsAt_fold_addExportedBy exportsAt_setExports keys_fold_getOrElseUpdate
        exportsAt_fold_getOrElseUpdate)

lemma exportedByAt_processModule:
  "exportedByAt (processModule b ns m) k
     = rev (filter (\<lambda>e. exportee e = k) (edgesOf b m)) @ exportedByAt ns k"
proof (cases "k \<in> fst ` set (processModule b ns m)")
  case True
  let ?n1 = "foldl (\<lambda>ns x. getOrElseUpdate ns (target x)) ns (directExports b m)"
  let ?n2 = "setExports ?n1 (ResolvedModule m) (edgesOf b m)"
  have "k \<in> fst ` set ?n2"
    using True unfolding processModule_def Let_def keys_fold_addExportedBy .
  from exportedByAt_fold_addExportedBy[OF this, of "edgesOf b m"]
  show ?thesis
    unfolding processModule_def Let_def
    by (simp add: exportedByAt_setExports exportedByAt_fold_getOrElseUpdate)
next
  case False
  then have "k \<notin> fst ` set ns" "k \<notin> exportee ` set (edgesOf b m)"
    by (auto simp: keys_processModule exportee_edgesOf)
  then have "filter (\<lambda>e. exportee e = k) (edgesOf b m) = []"
    by (auto simp: filter_empty_conv)
  with False \<open>k \<notin> fst ` set ns\<close> show ?thesis
    by (simp add: exportedByAt_not_key)
qed


lemma keys_fold_processModule:
  "fst ` set (foldl (processModule b) ns ms)
     = fst ` set ns \<union> (\<Union>m\<in>set ms. target ` set (directExports b m))"
  by (induction ms arbitrary: ns) (auto simp: keys_processModule)

lemma wf_fold_processModule: "wfNodes ns \<Longrightarrow> wfNodes (foldl (processModule b) ns ms)"
  by (induction ms arbitrary: ns) (auto simp: wf_processModule)

lemma exportsAt_fold_processModule:
  "ResolvedModule ` set ms \<subseteq> fst ` set ns \<Longrightarrow>
   exportsAt (foldl (processModule b) ns ms) k
     = (if k \<in> ResolvedModule ` set ms then edgesOf b (unsafeAsModule k) else exportsAt ns k)"
proof (induction ms arbitrary: ns)
  case Nil
  then show ?case by simp
next
  case (Cons m ms)
  have sub: "ResolvedModule ` set ms \<subseteq> fst ` set (processModule b ns m)"
    using Cons.prems by (auto simp: keys_processModule)
  have m: "ResolvedModule m \<in> fst ` set ns" using Cons.prems by auto
  show ?case
    using Cons.IH[OF sub] by (auto simp: exportsAt_processModule[OF m])
qed

lemma exportedByAt_fold_processModule:
  "exportedByAt (foldl (processModule b) ns ms) k
     = rev (filter (\<lambda>e. exportee e = k) (concat (map (edgesOf b) ms))) @ exportedByAt ns k"
  by (induction ms arbitrary: ns) (auto simp: exportedByAt_processModule)

lemma keys_initialNodes: "fst ` set (initialNodes ms) = ResolvedModule ` set ms"
proof -
  have "fst ` set (foldl getOrElseUpdate ns ts) = fst ` set ns \<union> set ts" for ns ts
    by (induction ts arbitrary: ns) (auto simp: keys_getOrElseUpdate)
  then show ?thesis by (simp add: initialNodes_def)
qed

lemma wf_initialNodes: "wfNodes (initialNodes ms)"
proof -
  have "wfNodes ns \<Longrightarrow> wfNodes (foldl getOrElseUpdate ns ts)" for ns ts
    by (induction ts arbitrary: ns) (auto simp: wf_getOrElseUpdate)
  from this[of "[]"] show ?thesis by (simp add: initialNodes_def wfNodes_def)
qed

lemma exportsAt_initialNodes: "exportsAt (initialNodes ms) k = []"
proof -
  have "exportsAt (foldl getOrElseUpdate ns ts) k = exportsAt ns k" for ns ts
    by (induction ts arbitrary: ns) (auto simp: exportsAt_getOrElseUpdate)
  then show ?thesis by (simp add: initialNodes_def exportsAt_def)
qed

lemma exportedByAt_initialNodes: "exportedByAt (initialNodes ms) k = []"
proof -
  have "exportedByAt (foldl getOrElseUpdate ns ts) k = exportedByAt ns k" for ns ts
    by (induction ts arbitrary: ns) (auto simp: exportedByAt_getOrElseUpdate)
  then show ?thesis by (simp add: initialNodes_def exportedByAt_def)
qed

lemma wf_buildNodeMap: "wfNodes (buildNodeMap b ms)"
  unfolding buildNodeMap_def by (intro wf_fold_processModule wf_initialNodes)

lemma keys_buildNodeMap:
  "fst ` set (buildNodeMap b ms)
     = ResolvedModule ` set ms \<union> (\<Union>m\<in>set ms. target ` set (directExports b m))"
  unfolding buildNodeMap_def by (simp add: keys_fold_processModule keys_initialNodes)

lemma exportsAt_buildNodeMap:
  "exportsAt (buildNodeMap b ms) k
     = (if k \<in> ResolvedModule ` set ms then edgesOf b (unsafeAsModule k) else [])"
  unfolding buildNodeMap_def
  by (subst exportsAt_fold_processModule) (simp_all add: keys_initialNodes exportsAt_initialNodes)

lemma exportedByAt_buildNodeMap:
  "exportedByAt (buildNodeMap b ms) k
     = rev (filter (\<lambda>e. exportee e = k) (concat (map (edgesOf b) ms)))"
  unfolding buildNodeMap_def
  by (simp add: exportedByAt_fold_processModule exportedByAt_initialNodes)

lemma wf_node_lookup:
  assumes "wfNodes ns" "N \<in> set (map snd ns)"
  shows "map_of ns (nodeTarget N) = Some N"
proof -
  from assms(2) obtain k where kn: "(k, N) \<in> set ns" by auto
  with assms(1) have "nodeTarget N = k" by (auto simp: wfNodes_def)
  with kn assms(1) show ?thesis by (simp add: wfNodes_def)
qed

lemma wf_node_exports: "wfNodes ns \<Longrightarrow> N \<in> set (map snd ns) \<Longrightarrow> exports N = exportsAt ns (nodeTarget N)"
  by (simp add: exportsAt_def wf_node_lookup)

lemma wf_node_exportedBy: "wfNodes ns \<Longrightarrow> N \<in> set (map snd ns) \<Longrightarrow> exportedBy N = exportedByAt ns (nodeTarget N)"
  by (simp add: exportedByAt_def wf_node_lookup)

lemma wf_map_nodeTarget: "wfNodes ns \<Longrightarrow> map nodeTarget (map snd ns) = map fst ns"
  by (induction ns) (auto simp: wfNodes_def)

lemma buildGraph_targets_distinct: "distinct (map nodeTarget (buildGraph b ms))"
  unfolding buildGraph_def using wf_buildNodeMap[of b ms]
  by (simp only: wf_map_nodeTarget) (simp add: wfNodes_def)

lemma buildGraph_targets:
  "nodeTarget ` set (buildGraph b ms)
     = ResolvedModule ` set ms \<union> (\<Union>m\<in>set ms. target ` set (directExports b m))"
proof -
  have "nodeTarget ` set (buildGraph b ms) = set (map nodeTarget (map snd (buildNodeMap b ms)))"
    unfolding buildGraph_def by (simp only: set_map)
  also have "\<dots> = fst ` set (buildNodeMap b ms)"
    by (simp only: wf_map_nodeTarget[OF wf_buildNodeMap]) simp
  finally show ?thesis by (simp add: keys_buildNodeMap)
qed

lemma buildGraph_exports:
  "N \<in> set (buildGraph b ms) \<Longrightarrow>
   exports N = (if nodeTarget N \<in> ResolvedModule ` set ms
                then edgesOf b (unsafeAsModule (nodeTarget N)) else [])"
  unfolding buildGraph_def
  by (simp only: wf_node_exports[OF wf_buildNodeMap] exportsAt_buildNodeMap)

lemma buildGraph_exportedBy:
  "N \<in> set (buildGraph b ms) \<Longrightarrow>
   exportedBy N = rev (filter (\<lambda>e. exportee e = nodeTarget N) (concat (map (edgesOf b) ms)))"
  unfolding buildGraph_def
  by (simp only: wf_node_exportedBy[OF wf_buildNodeMap] exportedByAt_buildNodeMap)


lemma buildGraph_edges_set:
  "(\<Union>M\<in>set (buildGraph b ms). set (exports M)) = (\<Union>m\<in>set ms. set (edgesOf b m))"
proof (intro equalityI subsetI)
  fix e assume "e \<in> (\<Union>M\<in>set (buildGraph b ms). set (exports M))"
  then obtain M where M: "M \<in> set (buildGraph b ms)" "e \<in> set (exports M)" by blast
  then show "e \<in> (\<Union>m\<in>set ms. set (edgesOf b m))"
    by (auto simp: buildGraph_exports split: if_splits)
next
  fix e assume "e \<in> (\<Union>m\<in>set ms. set (edgesOf b m))"
  then obtain m where m: "m \<in> set ms" "e \<in> set (edgesOf b m)" by blast
  then have "ResolvedModule m \<in> nodeTarget ` set (buildGraph b ms)"
    by (simp add: buildGraph_targets)
  then obtain M where M: "M \<in> set (buildGraph b ms)" "nodeTarget M = ResolvedModule m" by force
  with m have "e \<in> set (exports M)" by (simp add: buildGraph_exports)
  with M show "e \<in> (\<Union>M\<in>set (buildGraph b ms). set (exports M))" by blast
qed

definition exampleBindings :: Bindings where
  "exampleBindings = map_of
     [(0, []),
      (1, [ExportedModule (ResolvedModule 0) None [''T'']]),
      (2, [ExportedModule (ResolvedType 0 ''U'') None []])]"

text \<open>
  Claim C5. After \<^verbatim>\<open>buildGraph\<close> returns, the \<^verbatim>\<open>exportedBy\<close> list of every node \<open>N\<close> of the
  returned list holds exactly the edges \<open>e\<close>, over the \<^verbatim>\<open>exports\<close> lists of all returned nodes,
  with \<open>e.exportee = N\<close>: none is missing and none is extra.
\<close>

theorem buildGraph_exportedBy_exact:
  assumes "N \<in> set (buildGraph getBindings modules)"
  shows "set (exportedBy N)
           = {e. (\<exists>M \<in> set (buildGraph getBindings modules). e \<in> set (exports M))
                 \<and> exportee e = nodeTarget N}"
proof -
  have "set (exportedBy N)
          = {e \<in> (\<Union>m\<in>set modules. set (edgesOf getBindings m)). exportee e = nodeTarget N}"
    by (auto simp: buildGraph_exportedBy[OF assms])
  also have "\<dots> = {e \<in> (\<Union>M\<in>set (buildGraph getBindings modules). set (exports M)).
                      exportee e = nodeTarget N}"
    by (simp only: buildGraph_edges_set)
  finally show ?thesis by blast
qed

lemma exampleGraph:
  "buildGraph exampleBindings [0, 1, 2] =
    [Node (ResolvedModule 0) [] [Edge (ResolvedModule 1) [''T''] None (ResolvedModule 0)],
     Node (ResolvedModule 1) [Edge (ResolvedModule 1) [''T''] None (ResolvedModule 0)] [],
     Node (ResolvedModule 2) [Edge (ResolvedModule 2) [] None (ResolvedType 0 ''U'')] [],
     Node (ResolvedType 0 ''U'') [] [Edge (ResolvedModule 2) [] None (ResolvedType 0 ''U'')]]"
  by code_simp

theorem buildGraph_exportedBy_exact_witness:
  "Node (ResolvedModule 0) [] [Edge (ResolvedModule 1) [''T''] None (ResolvedModule 0)]
     \<in> set (buildGraph exampleBindings [0, 1, 2])
   \<and> set (exportedBy
        (Node (ResolvedModule 0) [] [Edge (ResolvedModule 1) [''T''] None (ResolvedModule 0)]))
     = {e. (\<exists>M \<in> set (buildGraph exampleBindings [0, 1, 2]). e \<in> set (exports M))
           \<and> exportee e = ResolvedModule 0}"
proof -
  have h: "Node (ResolvedModule 0) [] [Edge (ResolvedModule 1) [''T''] None (ResolvedModule 0)]
             \<in> set (buildGraph exampleBindings [0, 1, 2])"
    unfolding exampleGraph by simp
  from buildGraph_exportedBy_exact[OF h] h show ?thesis by simp
qed



section \<open>resolveExports\<close>

text \<open>
  The exceptions the phase can end with. \<^verbatim>\<open>NoSuchElementException\<close> carries its message:
  \<open>''None.get''\<close> from \<^verbatim>\<open>Option.get\<close> on \<^verbatim>\<open>None\<close>, \<open>''key not found''\<close> from the lookup of a
  missing key in a mutable map.
\<close>

datatype error =
    ExportCycleException "Module list"
  | NoSuchElementException string
  | NullPointerException

text \<open>
  Scala's \<^verbatim>\<open>xs.intersect(ys)\<close> is the multiset intersection that keeps the order of \<open>xs\<close>:
  an element of \<open>xs\<close> is kept as often as \<open>ys\<close> still has an occurrence for it.
  \<^verbatim>\<open>xs.distinct\<close> keeps the first occurrence of every element; it is computed with the
  set of elements seen so far.
\<close>

fun intersect :: "'a list \<Rightarrow> 'a list \<Rightarrow> 'a list" where
  "intersect [] ys = []"
| "intersect (x # xs) ys =
     (if x \<in> set ys then x # intersect xs (remove1 x ys) else intersect xs ys)"

fun distinctFrom :: "'a list \<Rightarrow> 'a list \<Rightarrow> 'a list" where
  "distinctFrom seen [] = []"
| "distinctFrom seen (x # xs) =
     (if x \<in> set seen then distinctFrom seen xs else x # distinctFrom (x # seen) xs)"

definition distinctScala :: "'a list \<Rightarrow> 'a list" where
  "distinctScala xs = distinctFrom [] xs"

fun collectFirstName :: "ExportedModule list \<Rightarrow> string option" where
  "collectFirstName [] = None"
| "collectFirstName (ExportedModule _ (Some n) _ # _) = Some n"
| "collectFirstName (ExportedModule _ None _ # items) = collectFirstName items"

definition explicitlyExported :: "Node \<Rightarrow> ExportedModule list" where
  "explicitlyExported node =
     map (\<lambda>edge. ExportedModule (exportee edge) (exportsAs edge) (edgeSymbols edge))
         (exports node)"

text \<open>
  The table \<^verbatim>\<open>exports\<close> of already resolved targets is a partial map. \<^verbatim>\<open>exports(module)\<close>
  throws \<^verbatim>\<open>NoSuchElementException\<close> for a target that has not been resolved yet.
\<close>

type_synonym Resolved = "ImportTarget \<rightharpoonup> ExportedModule list"

fun transitivelyExported :: "Resolved \<Rightarrow> ExportedModule list \<Rightarrow> error + ExportedModule list"
  where
  "transitivelyExported resolved [] = Inr []"
| "transitivelyExported resolved (ExportedModule module _ syms # rest) =
     (case resolved module of
        None \<Rightarrow> Inl (NoSuchElementException ''key not found'')
      | Some parent \<Rightarrow>
          (case transitivelyExported resolved rest of
             Inl e \<Rightarrow> Inl e
           | Inr more \<Rightarrow>
               Inr (map (\<lambda>p. ExportedModule (target p) None (intersect syms (symbols p))) parent
                    @ more)))"

text \<open>
  \<^verbatim>\<open>allExported.groupBy(_.target).map {...}.toList\<close>: one record per target, built from the
  records of that target in their order in \<open>allExported\<close>. The groups are listed in the order
  in which their targets first occur.
\<close>

definition unifyGroup :: "ImportTarget \<Rightarrow> ExportedModule list \<Rightarrow> ExportedModule" where
  "unifyGroup tgt items =
     ExportedModule tgt (collectFirstName items)
       (distinctScala (foldl (@) [] (map symbols items)))"

definition unified :: "ExportedModule list \<Rightarrow> ExportedModule list" where
  "unified allExported =
     map (\<lambda>tgt. unifyGroup tgt (filter (\<lambda>x. target x = tgt) allExported))
         (distinctScala (map target allExported))"

definition resolveNode :: "Resolved \<Rightarrow> Node \<Rightarrow> error + Resolved" where
  "resolveNode resolved node =
     (case transitivelyExported resolved (explicitlyExported node) of
        Inl e \<Rightarrow> Inl e
      | Inr transitive \<Rightarrow>
          Inr (resolved(nodeTarget node \<mapsto> unified (explicitlyExported node @ transitive))))"

fun resolveNodes :: "Resolved \<Rightarrow> Node list \<Rightarrow> error + Resolved" where
  "resolveNodes resolved [] = Inr resolved"
| "resolveNodes resolved (node # nodes) =
     (case resolveNode resolved node of
        Inl e \<Rightarrow> Inl e
      | Inr resolved' \<Rightarrow> resolveNodes resolved' nodes)"

text \<open>
  The final loop stores the resolved list of every module target into the module's bindings
  map; a module without bindings map makes the store fail. The result of the model is the
  table itself: \<^verbatim>\<open>resolvedExports\<close> of module \<open>m\<close> is the entry of \<open>ResolvedModule m\<close>.
\<close>

definition storeFails :: "Bindings \<Rightarrow> Node list \<Rightarrow> bool" where
  "storeFails getBindings nodes =
     (\<exists>node \<in> set nodes. case nodeTarget node of
                             ResolvedModule m \<Rightarrow> getBindings m = None
                           | _ \<Rightarrow> False)"

definition resolveExports :: "Bindings \<Rightarrow> Node list \<Rightarrow> error + Resolved" where
  "resolveExports getBindings nodes =
     (case resolveNodes Map.empty nodes of
        Inl e \<Rightarrow> Inl e
      | Inr resolved \<Rightarrow>
          if storeFails getBindings nodes then Inl NullPointerException else Inr resolved)"

definition resolvedExports :: "Resolved \<Rightarrow> Module \<Rightarrow> ExportedModule list" where
  "resolvedExports resolved m = (case resolved (ResolvedModule m) of Some xs \<Rightarrow> xs | None \<Rightarrow> [])"


section \<open>Properties of the resolution of one node\<close>

lemma set_intersect: "set (intersect xs ys) = set xs \<inter> set ys"
proof (induction xs arbitrary: ys)
  case Nil
  then show ?case by simp
next
  case (Cons x xs)
  have "y \<noteq> x \<Longrightarrow> y \<in> set (remove1 x ys) \<longleftrightarrow> y \<in> set ys" for y
    by simp
  then show ?case using Cons.IH by auto
qed

lemma intersect_Nil: "intersect [] ys = []"
  by simp

lemma set_distinctFrom: "set (distinctFrom seen xs) = set xs - set seen"
  by (induction seen xs rule: distinctFrom.induct) auto

lemma distinct_distinctFrom: "distinct (distinctFrom seen xs)"
  by (induction seen xs rule: distinctFrom.induct) (auto simp: set_distinctFrom)

lemma set_distinctScala: "set (distinctScala xs) = set xs"
  by (simp add: distinctScala_def set_distinctFrom)

lemma distinct_distinctScala: "distinct (distinctScala xs)"
  by (simp add: distinctScala_def distinct_distinctFrom)

lemma foldl_append_concat: "foldl (@) acc xss = acc @ concat xss"
  by (induction xss arbitrary: acc) auto

lemma transitivelyExported_mem:
  assumes "transitivelyExported resolved xs = Inr ts" "r \<in> set ts"
  shows "\<exists>x \<in> set xs. \<exists>parent. resolved (target x) = Some parent \<and>
           (\<exists>p \<in> set parent. r = ExportedModule (target p) None (intersect (symbols x) (symbols p)))"
  using assms
proof (induction resolved xs arbitrary: ts rule: transitivelyExported.induct)
  case (1 resolved)
  then show ?case by simp
next
  case (2 resolved module uu syms rest)
  from "2.prems"(1) obtain parent more where
    p: "resolved module = Some parent" and
    m: "transitivelyExported resolved rest = Inr more" and
    ts: "ts = map (\<lambda>p. ExportedModule (target p) None (intersect syms (symbols p))) parent @ more"
    by (auto split: option.splits sum.splits)
  from "2.prems"(2) ts consider
    (here) "r \<in> set (map (\<lambda>p. ExportedModule (target p) None (intersect syms (symbols p))) parent)"
    | (there) "r \<in> set more" by auto
  then show ?case
  proof cases
    case here
    with p show ?thesis by auto
  next
    case there
    from "2.IH"[OF p m there] show ?thesis by auto
  qed
qed

lemma collectFirstName_Some:
  "collectFirstName items = Some n \<Longrightarrow> \<exists>x \<in> set items. exportedAs x = Some n"
  by (induction items rule: collectFirstName.induct) auto

lemma collectFirstName_None:
  "collectFirstName items = None \<longleftrightarrow> (\<forall>x \<in> set items. exportedAs x = None)"
  by (induction items rule: collectFirstName.induct) auto

lemma unified_targets: "map target (unified xs) = distinctScala (map target xs)"
  by (simp add: unified_def unifyGroup_def comp_def)

lemma unified_mem:
  assumes "r \<in> set (unified xs)"
  shows "r = unifyGroup (target r) (filter (\<lambda>x. target x = target r) xs)
         \<and> target r \<in> target ` set xs"
proof -
  from assms obtain t where t: "t \<in> set (distinctScala (map target xs))"
    and r: "r = unifyGroup t (filter (\<lambda>x. target x = t) xs)"
    by (auto simp: unified_def)
  from r have "target r = t" by (simp add: unifyGroup_def)
  with t r show ?thesis by (simp add: set_distinctScala)
qed

lemma unified_symbols:
  assumes "r \<in> set (unified xs)"
  shows "set (symbols r) = (\<Union>x \<in> {x \<in> set xs. target x = target r}. set (symbols x))"
proof -
  from unified_mem[OF assms]
  have "symbols r = distinctScala (foldl (@) [] (map symbols (filter (\<lambda>x. target x = target r) xs)))"
    by (metis ExportedModule.sel(3) unifyGroup_def)
  then show ?thesis
    by (auto simp: set_distinctScala foldl_append_concat)
qed

lemma unified_alias:
  assumes "r \<in> set (unified xs)"
  shows "exportedAs r = collectFirstName (filter (\<lambda>x. target x = target r) xs)"
  using unified_mem[OF assms] by (metis ExportedModule.sel(2) unifyGroup_def)


subsection \<open>Example inputs\<close>

text \<open>
  Module 1 exports the symbol \<open>X\<close> from module 0, whose resolved exports expose \<open>X\<close> and \<open>Y\<close>
  of the type \<open>T\<close>.
\<close>

definition exampleResolved :: Resolved where
  "exampleResolved =
     [ResolvedModule 0 \<mapsto> [ExportedModule (ResolvedType 0 ''T'') None [''X'', ''Y'']]]"

definition exampleExporter :: Node where
  "exampleExporter = Node (ResolvedModule 1) [Edge (ResolvedModule 1) [''X''] None (ResolvedModule 0)] []"

definition emptySymbolsExporter :: Node where
  "emptySymbolsExporter = Node (ResolvedModule 1) [Edge (ResolvedModule 1) [] None (ResolvedModule 0)] []"

text \<open>Module 1 declares two exports of module 0 under the same name.\<close>

definition duplicateBindings :: Bindings where
  "duplicateBindings = map_of
     [(0, []),
      (1, [ExportedModule (ResolvedModule 0) None [''X''],
           ExportedModule (ResolvedModule 0) None [''Y'']])]"

subsection \<open>The claims about resolveExports\<close>

text \<open>
  Claim C3. Every record that a node re-exports transitively comes from one of the node's
  export edges and one record of the exportee's already resolved exports, and its symbols are
  those of the edge's declared symbol set that the exportee's record also has: with the edge
  restricted to \<open>X\<close> and the exportee exposing \<open>X\<close> and \<open>Y\<close>, only \<open>X\<close> is re-exported.
  Hence no record of the node's merged list has a symbol that none of the node's edges
  declares.
\<close>

theorem transitive_symbols_intersection:
  assumes "transitivelyExported resolved (explicitlyExported node) = Inr ts"
  shows "(\<forall>r \<in> set ts. \<exists>e \<in> set (exports node). \<exists>parent.
            resolved (exportee e) = Some parent \<and>
            (\<exists>p \<in> set parent. target r = target p \<and>
               set (symbols r) = set (edgeSymbols e) \<inter> set (symbols p)))
       \<and> (\<forall>u \<in> set (unified (explicitlyExported node @ ts)).
            set (symbols u) \<subseteq> (\<Union>e \<in> set (exports node). set (edgeSymbols e)))"
proof (intro conjI ballI)
  fix r assume "r \<in> set ts"
  from transitivelyExported_mem[OF assms this] obtain x parent p where
    x: "x \<in> set (explicitlyExported node)" and
    par: "resolved (target x) = Some parent" and
    p: "p \<in> set parent" and
    r: "r = ExportedModule (target p) None (intersect (symbols x) (symbols p))"
    by blast
  from x obtain e where e: "e \<in> set (exports node)"
    and xe: "x = ExportedModule (exportee e) (exportsAs e) (edgeSymbols e)"
    by (auto simp: explicitlyExported_def)
  from r xe have "target r = target p"
    "set (symbols r) = set (edgeSymbols e) \<inter> set (symbols p)"
    by (simp_all add: set_intersect)
  with e par p xe
  show "\<exists>e \<in> set (exports node). \<exists>parent. resolved (exportee e) = Some parent \<and>
           (\<exists>p \<in> set parent. target r = target p \<and>
              set (symbols r) = set (edgeSymbols e) \<inter> set (symbols p))"
    by auto
next
  fix u assume u: "u \<in> set (unified (explicitlyExported node @ ts))"
  have declared: "set (symbols x) \<subseteq> (\<Union>e \<in> set (exports node). set (edgeSymbols e))"
    if "x \<in> set (explicitlyExported node @ ts)" for x
  proof (cases "x \<in> set ts")
    case True
    from transitivelyExported_mem[OF assms True] obtain y parent p where
      y: "y \<in> set (explicitlyExported node)" and
      xr: "x = ExportedModule (target p) None (intersect (symbols y) (symbols p))"
      by blast
    from y obtain e where "e \<in> set (exports node)" "symbols y = edgeSymbols e"
      by (auto simp: explicitlyExported_def)
    with xr show ?thesis by (auto simp: set_intersect)
  next
    case False
    with that have "x \<in> set (explicitlyExported node)" by simp
    then obtain e where "e \<in> set (exports node)" "symbols x = edgeSymbols e"
      by (auto simp: explicitlyExported_def)
    then show ?thesis by auto
  qed
  from unified_symbols[OF u] declared
  show "set (symbols u) \<subseteq> (\<Union>e \<in> set (exports node). set (edgeSymbols e))"
    by blast
qed

theorem transitive_symbols_intersection_witness:
  "transitivelyExported exampleResolved (explicitlyExported exampleExporter)
     = Inr [ExportedModule (ResolvedType 0 ''T'') None [''X'']]
   \<and> (\<exists>e \<in> set (exports exampleExporter). \<exists>parent.
         exampleResolved (exportee e) = Some parent \<and>
         (\<exists>p \<in> set parent. ResolvedType 0 ''T'' = target p \<and>
            {''X''} = set (edgeSymbols e) \<inter> set (symbols p)))
   \<and> list_all (\<lambda>u. ''Y'' \<notin> set (symbols u))
        (unified (explicitlyExported exampleExporter
                  @ [ExportedModule (ResolvedType 0 ''T'') None [''X'']]))"
proof -
  have h: "transitivelyExported exampleResolved (explicitlyExported exampleExporter)
             = Inr [ExportedModule (ResolvedType 0 ''T'') None [''X'']]"
    by (simp add: exampleResolved_def exampleExporter_def explicitlyExported_def)
  note inst = transitive_symbols_intersection[OF h]
  from inst have a: "\<exists>e \<in> set (exports exampleExporter). \<exists>parent.
         exampleResolved (exportee e) = Some parent \<and>
         (\<exists>p \<in> set parent. ResolvedType 0 ''T'' = target p \<and>
            {''X''} = set (edgeSymbols e) \<inter> set (symbols p))"
    by simp
  have "(\<Union>e \<in> set (exports exampleExporter). set (edgeSymbols e)) = {''X''}"
    by (simp add: exampleExporter_def)
  with inst have "\<forall>u \<in> set (unified (explicitlyExported exampleExporter
                  @ [ExportedModule (ResolvedType 0 ''T'') None [''X'']])).
                   set (symbols u) \<subseteq> {''X''}"
    by simp
  then have b: "list_all (\<lambda>u. ''Y'' \<notin> set (symbols u))
        (unified (explicitlyExported exampleExporter
                  @ [ExportedModule (ResolvedType 0 ''T'') None [''X'']]))"
    unfolding list_all_iff by auto
  from h a b show ?thesis by blast
qed

text \<open>
  Claim C4. A record derived transitively carries no alias, and a record of the merged list
  has an alias only if a direct export edge of the same target declares that alias.
\<close>

theorem transitive_exports_drop_alias:
  assumes "transitivelyExported resolved (explicitlyExported node) = Inr ts"
  shows "(\<forall>t \<in> set ts. exportedAs t = None) \<and>
         (\<forall>r \<in> set (unified (explicitlyExported node @ ts)). \<forall>n. exportedAs r = Some n \<longrightarrow>
            (\<exists>e \<in> set (exports node). exportee e = target r \<and> exportsAs e = Some n))"
proof (intro conjI ballI allI impI)
  fix t assume "t \<in> set ts"
  from transitivelyExported_mem[OF assms this] show "exportedAs t = None" by auto
next
  fix r n
  assume r: "r \<in> set (unified (explicitlyExported node @ ts))" and n: "exportedAs r = Some n"
  from unified_alias[OF r] n
  have "collectFirstName (filter (\<lambda>x. target x = target r) (explicitlyExported node @ ts)) = Some n"
    by simp
  from collectFirstName_Some[OF this] obtain x where
    x: "x \<in> set (explicitlyExported node @ ts)" "target x = target r" "exportedAs x = Some n"
    by auto
  have "x \<notin> set ts"
    using transitivelyExported_mem[OF assms, of x] x(3) by auto
  with x(1) have "x \<in> set (explicitlyExported node)" by simp
  then obtain e where "e \<in> set (exports node)"
    "x = ExportedModule (exportee e) (exportsAs e) (edgeSymbols e)"
    by (auto simp: explicitlyExported_def)
  with x(2,3) show "\<exists>e \<in> set (exports node). exportee e = target r \<and> exportsAs e = Some n"
    by auto
qed

theorem transitive_exports_drop_alias_witness:
  "transitivelyExported exampleResolved (explicitlyExported exampleExporter)
     = Inr [ExportedModule (ResolvedType 0 ''T'') None [''X'']]
   \<and> list_all (\<lambda>r. exportedAs r = None)
        (unified (explicitlyExported exampleExporter
                  @ [ExportedModule (ResolvedType 0 ''T'') None [''X'']]))"
proof -
  have h: "transitivelyExported exampleResolved (explicitlyExported exampleExporter)
             = Inr [ExportedModule (ResolvedType 0 ''T'') None [''X'']]"
    by (simp add: exampleResolved_def exampleExporter_def explicitlyExported_def)
  have "\<forall>e \<in> set (exports exampleExporter). exportsAs e = None"
    by (simp add: exampleExporter_def)
  with transitive_exports_drop_alias[OF h] h show ?thesis
    unfolding list_all_iff by (metis not_Some_eq option.distinct(1))
qed


text \<open>
  Claim C6, as stated, fails: \<^verbatim>\<open>buildGraph\<close> makes one edge per export declaration and merges
  nothing, so a module that declares two exports of the same target under the same name
  keeps two edges with the same exporter, exportee and name.
\<close>

theorem buildGraph_keeps_duplicate_edges:
  "\<not> distinct (map (\<lambda>e. (exporter e, exportee e, exportsAs e))
                  (exports (buildGraph duplicateBindings [0, 1] ! 1)))"
  by code_simp

text \<open>
  Claim C6, amended. The merge happens in \<^verbatim>\<open>resolveExports\<close> and is by target: the list
  resolved for a node has one record per target, and the symbols of that record are the union
  of the symbols of all the records (direct and transitive) of that target.
\<close>

theorem resolveNode_merges_by_target:
  assumes "resolveNode resolved node = Inr resolved'"
  shows "\<exists>u ts. resolved' (nodeTarget node) = Some u
           \<and> transitivelyExported resolved (explicitlyExported node) = Inr ts
           \<and> distinct (map target u)
           \<and> target ` set u = target ` set (explicitlyExported node @ ts)
           \<and> (\<forall>r \<in> set u. set (symbols r)
                 = (\<Union>x \<in> {x \<in> set (explicitlyExported node @ ts). target x = target r}.
                      set (symbols x)))"
proof -
  from assms obtain ts where
    ts: "transitivelyExported resolved (explicitlyExported node) = Inr ts" and
    r': "resolved' = resolved(nodeTarget node \<mapsto> unified (explicitlyExported node @ ts))"
    by (auto simp: resolveNode_def split: sum.splits)
  let ?u = "unified (explicitlyExported node @ ts)"
  have d: "distinct (map target ?u)"
    by (simp only: unified_targets distinct_distinctScala)
  have "set (map target ?u) = set (map target (explicitlyExported node @ ts))"
    by (simp only: unified_targets set_distinctScala)
  then have s: "target ` set ?u = target ` set (explicitlyExported node @ ts)"
    by (simp only: set_map)
  have "\<forall>r \<in> set ?u. set (symbols r)
          = (\<Union>x \<in> {x \<in> set (explicitlyExported node @ ts). target x = target r}. set (symbols x))"
    using unified_symbols by blast
  with ts r' d s show ?thesis by auto
qed

text \<open>
  Module 1 declares two exports of module 0 under the name \<open>A\<close>, one of the symbol \<open>X\<close> and
  one of the symbol \<open>Y\<close>.
\<close>

definition mergingExporter :: Node where
  "mergingExporter =
     Node (ResolvedModule 1)
       [Edge (ResolvedModule 1) [''X''] (Some ''A'') (ResolvedModule 0),
        Edge (ResolvedModule 1) [''Y''] (Some ''A'') (ResolvedModule 0)] []"

lemma transitive_mergingExporter:
  "transitivelyExported exampleResolved (explicitlyExported mergingExporter)
     = Inr [ExportedModule (ResolvedType 0 ''T'') None [''X''],
            ExportedModule (ResolvedType 0 ''T'') None [''Y'']]"
  by code_simp

lemma unified_mergingExporter:
  "unified (explicitlyExported mergingExporter
            @ [ExportedModule (ResolvedType 0 ''T'') None [''X''],
               ExportedModule (ResolvedType 0 ''T'') None [''Y'']])
     = [ExportedModule (ResolvedModule 0) (Some ''A'') [''X'', ''Y''],
        ExportedModule (ResolvedType 0 ''T'') None [''X'', ''Y'']]"
  by code_simp

lemma resolveNode_mergingExporter:
  "resolveNode exampleResolved mergingExporter
     = Inr (exampleResolved(ResolvedModule 1 \<mapsto>
              [ExportedModule (ResolvedModule 0) (Some ''A'') [''X'', ''Y''],
               ExportedModule (ResolvedType 0 ''T'') None [''X'', ''Y'']]))"
  unfolding resolveNode_def transitive_mergingExporter
  by (simp add: unified_mergingExporter) (simp add: mergingExporter_def)

theorem resolveNode_merges_by_target_witness:
  "resolveNode exampleResolved mergingExporter
     = Inr (exampleResolved(ResolvedModule 1 \<mapsto>
              [ExportedModule (ResolvedModule 0) (Some ''A'') [''X'', ''Y''],
               ExportedModule (ResolvedType 0 ''T'') None [''X'', ''Y'']]))
   \<and> (\<exists>u ts. u = [ExportedModule (ResolvedModule 0) (Some ''A'') [''X'', ''Y''],
                   ExportedModule (ResolvedType 0 ''T'') None [''X'', ''Y'']]
           \<and> ts = [ExportedModule (ResolvedType 0 ''T'') None [''X''],
                    ExportedModule (ResolvedType 0 ''T'') None [''Y'']]
           \<and> transitivelyExported exampleResolved (explicitlyExported mergingExporter) = Inr ts
           \<and> distinct (map target u)
           \<and> target ` set u = target ` set (explicitlyExported mergingExporter @ ts)
           \<and> (\<forall>r \<in> set u. set (symbols r)
                 = (\<Union>x \<in> {x \<in> set (explicitlyExported mergingExporter @ ts).
                              target x = target r}.
                      set (symbols x))))"
proof -
  let ?u = "[ExportedModule (ResolvedModule 0) (Some ''A'') [''X'', ''Y''],
             ExportedModule (ResolvedType 0 ''T'') None [''X'', ''Y'']]"
  let ?ts = "[ExportedModule (ResolvedType 0 ''T'') None [''X''],
              ExportedModule (ResolvedType 0 ''T'') None [''Y'']]"
  note h = resolveNode_mergingExporter
  from resolveNode_merges_by_target[OF h] obtain u ts where
    u: "(exampleResolved(ResolvedModule 1 \<mapsto> ?u)) (nodeTarget mergingExporter) = Some u" and
    ts: "transitivelyExported exampleResolved (explicitlyExported mergingExporter) = Inr ts" and
    rest: "distinct (map target u)"
      "target ` set u = target ` set (explicitlyExported mergingExporter @ ts)"
      "\<forall>r \<in> set u. set (symbols r)
         = (\<Union>x \<in> {x \<in> set (explicitlyExported mergingExporter @ ts). target x = target r}.
              set (symbols x))"
    by blast
  from u have u': "u = ?u" by (simp add: mergingExporter_def)
  from ts have ts': "ts = ?ts" unfolding transitive_mergingExporter by simp
  note r1 = rest(1)[unfolded u']
  note r2 = rest(2)[unfolded u' ts']
  note r3 = rest(3)[unfolded u' ts']
  show ?thesis
    apply (rule conjI)
     apply (rule h)
    apply (rule exI[where x = "?u"])
    apply (rule exI[where x = "?ts"])
    apply (intro conjI)
         apply (rule refl)
        apply (rule refl)
       apply (rule transitive_mergingExporter)
      apply (rule r1)
     apply (rule r2)
    apply (rule r3)
    done
qed


text \<open>
  Claim C7, as stated, fails: an edge with an empty symbol list re-exports nothing of what the
  exportee exposes, because the intersection with the empty list is empty.
\<close>

theorem empty_symbols_not_all:
  "exampleResolved (ResolvedModule 0)
     = Some [ExportedModule (ResolvedType 0 ''T'') None [''X'', ''Y'']]
   \<and> transitivelyExported exampleResolved (explicitlyExported emptySymbolsExporter)
     = Inr [ExportedModule (ResolvedType 0 ''T'') None []]"
  by (simp add: exampleResolved_def emptySymbolsExporter_def explicitlyExported_def)

lemma transitivelyExported_blocks:
  "transitivelyExported resolved xs = Inr ts \<Longrightarrow>
   \<exists>blocks. ts = concat blocks \<and>
     list_all2 (\<lambda>x block. \<exists>parent. resolved (target x) = Some parent \<and>
                  block = map (\<lambda>p. ExportedModule (target p) None
                                        (intersect (symbols x) (symbols p))) parent)
       xs blocks"
proof (induction resolved xs arbitrary: ts rule: transitivelyExported.induct)
  case (1 resolved)
  then show ?case by simp
next
  case (2 resolved module uu syms rest)
  from "2.prems" obtain parent more where
    p: "resolved module = Some parent" and
    m: "transitivelyExported resolved rest = Inr more" and
    ts: "ts = map (\<lambda>p. ExportedModule (target p) None (intersect syms (symbols p))) parent @ more"
    by (auto split: option.splits sum.splits)
  from "2.IH"[OF p m] obtain blocks where
    b: "more = concat blocks"
    "list_all2 (\<lambda>x block. \<exists>parent. resolved (target x) = Some parent \<and>
                  block = map (\<lambda>p. ExportedModule (target p) None
                                        (intersect (symbols x) (symbols p))) parent)
       rest blocks"
    by blast
  let ?block = "map (\<lambda>p. ExportedModule (target p) None (intersect syms (symbols p))) parent"
  have "ts = concat (?block # blocks)" using ts b(1) by simp
  moreover have "list_all2 (\<lambda>x block. \<exists>parent. resolved (target x) = Some parent \<and>
                  block = map (\<lambda>p. ExportedModule (target p) None
                                        (intersect (symbols x) (symbols p))) parent)
       (ExportedModule module uu syms # rest) (?block # blocks)"
    using p b(2) by simp
  ultimately show ?case by blast
qed

text \<open>
  Claim C7, amended. The transitive exports of a node are made of one block of records per
  export edge, in the order of the edges: the block of an edge has one record for every
  record of the exportee's resolved exports, with that record's target, no alias and the
  symbols of the edge's declared list that the exportee's record also has. For an edge whose
  declared symbol list is empty every record of its block has an empty symbol list, whatever
  other edges the node has.
\<close>

theorem empty_symbols_edge_contribution:
  assumes "transitivelyExported resolved (explicitlyExported node) = Inr ts"
  shows "\<exists>blocks. ts = concat blocks \<and>
           list_all2 (\<lambda>e block. \<exists>parent. resolved (exportee e) = Some parent
                        \<and> block = map (\<lambda>p. ExportedModule (target p) None
                                              (intersect (edgeSymbols e) (symbols p))) parent
                        \<and> (edgeSymbols e = [] \<longrightarrow>
                             block = map (\<lambda>p. ExportedModule (target p) None []) parent))
             (exports node) blocks"
proof -
  from transitivelyExported_blocks[OF assms] obtain blocks where
    c: "ts = concat blocks" and
    l: "list_all2 (\<lambda>x block. \<exists>parent. resolved (target x) = Some parent \<and>
                  block = map (\<lambda>p. ExportedModule (target p) None
                                        (intersect (symbols x) (symbols p))) parent)
          (explicitlyExported node) blocks"
    by blast
  from l have "list_all2 (\<lambda>e block. \<exists>parent. resolved (exportee e) = Some parent
                        \<and> block = map (\<lambda>p. ExportedModule (target p) None
                                              (intersect (edgeSymbols e) (symbols p))) parent)
             (exports node) blocks"
    by (simp add: explicitlyExported_def list_all2_map1)
  then have "list_all2 (\<lambda>e block. \<exists>parent. resolved (exportee e) = Some parent
                        \<and> block = map (\<lambda>p. ExportedModule (target p) None
                                              (intersect (edgeSymbols e) (symbols p))) parent
                        \<and> (edgeSymbols e = [] \<longrightarrow>
                             block = map (\<lambda>p. ExportedModule (target p) None []) parent))
             (exports node) blocks"
    by (rule list_all2_mono) auto
  with c show ?thesis by blast
qed

text \<open>
  Module 1 exports module 0 twice, once with an empty symbol list and once with the
  symbol \<open>X\<close>.
\<close>

definition mixedExporter :: Node where
  "mixedExporter =
     Node (ResolvedModule 1)
       [Edge (ResolvedModule 1) [] None (ResolvedModule 0),
        Edge (ResolvedModule 1) [''X''] None (ResolvedModule 0)] []"

lemma transitive_mixedExporter:
  "transitivelyExported exampleResolved (explicitlyExported mixedExporter)
     = Inr [ExportedModule (ResolvedType 0 ''T'') None [],
            ExportedModule (ResolvedType 0 ''T'') None [''X'']]"
  by code_simp

theorem empty_symbols_edge_contribution_witness:
  "transitivelyExported exampleResolved (explicitlyExported mixedExporter)
     = Inr [ExportedModule (ResolvedType 0 ''T'') None [],
            ExportedModule (ResolvedType 0 ''T'') None [''X'']]
   \<and> (\<exists>blocks. [ExportedModule (ResolvedType 0 ''T'') None [],
                  ExportedModule (ResolvedType 0 ''T'') None [''X'']] = concat blocks
        \<and> blocks = [[ExportedModule (ResolvedType 0 ''T'') None []],
                     [ExportedModule (ResolvedType 0 ''T'') None [''X'']]]
        \<and> exampleResolved (ResolvedModule 0)
            = Some [ExportedModule (ResolvedType 0 ''T'') None [''X'', ''Y'']])"
proof -
  note h = transitive_mixedExporter
  from empty_symbols_edge_contribution[OF h] obtain blocks where
    c: "[ExportedModule (ResolvedType 0 ''T'') None [],
         ExportedModule (ResolvedType 0 ''T'') None [''X'']] = concat blocks" and
    l: "list_all2 (\<lambda>e block. \<exists>parent. exampleResolved (exportee e) = Some parent
                        \<and> block = map (\<lambda>p. ExportedModule (target p) None
                                              (intersect (edgeSymbols e) (symbols p))) parent
                        \<and> (edgeSymbols e = [] \<longrightarrow>
                             block = map (\<lambda>p. ExportedModule (target p) None []) parent))
             (exports mixedExporter) blocks"
    by blast
  have p: "exampleResolved (ResolvedModule 0)
            = Some [ExportedModule (ResolvedType 0 ''T'') None [''X'', ''Y'']]"
    by (simp add: exampleResolved_def)
  from l p have b: "blocks = [[ExportedModule (ResolvedType 0 ''T'') None []],
                     [ExportedModule (ResolvedType 0 ''T'') None [''X'']]]"
    by (auto simp: mixedExporter_def list_all2_Cons1)
  from h c b p show ?thesis by blast
qed


section \<open>findCycles\<close>

text \<open>
  An edge holds its exportee as a node reference. \<open>deref\<close> reads that reference in the node
  list; a target without node in the list stands for a node without exports (in a list built
  by \<^verbatim>\<open>buildGraph\<close> every exportee has its node).
\<close>

definition deref :: "Node list \<Rightarrow> ImportTarget \<Rightarrow> Node" where
  "deref nodes t =
     (case find (\<lambda>n. nodeTarget n = t) nodes of Some n \<Rightarrow> n | None \<Rightarrow> Node t [] [])"

text \<open>
  The state of the search: the sets \<^verbatim>\<open>visited\<close> and \<^verbatim>\<open>inProgress\<close> (nodes are told apart by
  their targets) and the list \<^verbatim>\<open>foundCycles\<close>.
\<close>

type_synonym DfsState = "ImportTarget list \<times> ImportTarget list \<times> Node list list"

text \<open>
  The recursive \<^verbatim>\<open>go\<close> and the \<^verbatim>\<open>children.flatMap(go)\<close> inside it. The first argument bounds
  the depth of the recursion; \<open>None\<close> means that the bound was too small.
\<close>

fun go :: "Node list \<Rightarrow> nat \<Rightarrow> Node \<Rightarrow> DfsState
             \<Rightarrow> ((Node \<times> Node list) option \<times> DfsState) option"
  and goChildren :: "Node list \<Rightarrow> nat \<Rightarrow> Node list \<Rightarrow> DfsState
             \<Rightarrow> ((Node \<times> Node list) list \<times> DfsState) option"
  where
  "go nodes 0 node s = None"
| "go nodes (Suc fuel) node (visited, inProgress, foundCycles) =
     (if nodeTarget node \<in> set inProgress then
        Some (Some (node, []), (visited, inProgress, foundCycles))
      else if nodeTarget node \<in> set visited then
        Some (None, (visited, inProgress, foundCycles))
      else
        (case goChildren nodes fuel (map (\<lambda>e. deref nodes (exportee e)) (exports node))
                (visited, nodeTarget node # inProgress, foundCycles) of
           None \<Rightarrow> None
         | Some (childrenResults, (visited', inProgress', foundCycles')) \<Rightarrow>
             (let inProgress'' = removeAll (nodeTarget node) inProgress';
                  visited'' = List.insert (nodeTarget node) visited'
              in case childrenResults of
                   [] \<Rightarrow> Some (None, (visited'', inProgress'', foundCycles'))
                 | (modl, path) # _ \<Rightarrow>
                     if nodeTarget modl = nodeTarget node then
                       Some (None, (visited'', inProgress'', (modl # path) # foundCycles'))
                     else
                       Some (Some (modl, node # path),
                             (visited'', inProgress'', foundCycles')))))"
| "goChildren nodes fuel [] s = Some ([], s)"
| "goChildren nodes fuel (child # children) s =
     (case go nodes fuel child s of
        None \<Rightarrow> None
      | Some (r, s') \<Rightarrow>
          (case goChildren nodes fuel children s' of
             None \<Rightarrow> None
           | Some (rs, s'') \<Rightarrow> Some ((case r of None \<Rightarrow> [] | Some x \<Rightarrow> [x]) @ rs, s'')))"

text \<open>
  \<^verbatim>\<open>nodes.foreach(go)\<close> runs \<^verbatim>\<open>go\<close> on every node in turn and drops the results; the cycles
  are what \<^verbatim>\<open>foundCycles\<close> holds at the end.
\<close>

definition findCycles :: "Node list \<Rightarrow> Node list list option" where
  "findCycles nodes =
     (case goChildren nodes (length nodes + 2) nodes ([], [], []) of
        None \<Rightarrow> None
      | Some (_, (_, _, foundCycles)) \<Rightarrow> Some foundCycles)"

section \<open>topsort\<close>

text \<open>
  The table \<^verbatim>\<open>degrees\<close>, in insertion order; its keys are nodes, told apart by their targets.
\<close>

type_synonym Degrees = "(Node \<times> int) list"

definition setDegree :: "Degrees \<Rightarrow> Node \<Rightarrow> int \<Rightarrow> Degrees" where
  "setDegree degrees node d =
     (if nodeTarget node \<in> (\<lambda>(n, _). nodeTarget n) ` set degrees
      then map (\<lambda>(n, x). if nodeTarget n = nodeTarget node then (n, d) else (n, x)) degrees
      else degrees @ [(node, d)])"

definition initialDegrees :: "Node list \<Rightarrow> Degrees" where
  "initialDegrees nodes =
     foldl (\<lambda>degrees node. setDegree degrees node (int (length (exports node)))) [] nodes"

text \<open>
  One round of \<^verbatim>\<open>item.exportedBy.foreach\<close>: \<^verbatim>\<open>degrees(edge.exporter) -= 1\<close> reads the entry of
  the exporter, which fails for a missing key, and writes it back decremented; the exporter
  is enqueued when its entry is zero afterwards.
\<close>

definition visitEdge :: "Degrees \<times> Node list \<Rightarrow> Edge \<Rightarrow> error + Degrees \<times> Node list" where
  "visitEdge s edge =
     (case s of (degrees, q) \<Rightarrow>
        (case find (\<lambda>(n, _). nodeTarget n = exporter edge) degrees of
           None \<Rightarrow> Inl (NoSuchElementException ''key not found'')
         | Some (n, d) \<Rightarrow>
             (let degrees' = map (\<lambda>(n', x). if nodeTarget n' = exporter edge
                                             then (n', x - 1) else (n', x)) degrees
              in if d - 1 = 0 then Inr (degrees', q @ [n]) else Inr (degrees', q))))"

fun visitEdges :: "Degrees \<times> Node list \<Rightarrow> Edge list \<Rightarrow> error + Degrees \<times> Node list" where
  "visitEdges s [] = Inr s"
| "visitEdges s (edge # edges) =
     (case visitEdge s edge of Inl x \<Rightarrow> Inl x | Inr s' \<Rightarrow> visitEdges s' edges)"

definition removeKey :: "Degrees \<Rightarrow> Node \<Rightarrow> Degrees" where
  "removeKey degrees item = filter (\<lambda>(n, _). nodeTarget n \<noteq> nodeTarget item) degrees"

definition positiveDegrees :: "Degrees \<Rightarrow> nat" where
  "positiveDegrees degrees = sum_list (map (\<lambda>(_, d). nat d) degrees)"


lemma positiveDegrees_removeKey: "positiveDegrees (removeKey degrees item) \<le> positiveDegrees degrees"
  unfolding positiveDegrees_def removeKey_def
  by (induction degrees) auto

lemma positiveDegrees_decrement:
  "positiveDegrees (map (\<lambda>(n', x). if nodeTarget n' = t then (n', x - 1) else (n', x)) degrees)
     \<le> positiveDegrees degrees"
  unfolding positiveDegrees_def
  by (induction degrees) (auto simp: add_mono)

lemma positiveDegrees_decrement_one:
  assumes "(n, 1) \<in> set degrees" "nodeTarget n = t"
  shows "positiveDegrees (map (\<lambda>(n', x). if nodeTarget n' = t then (n', x - 1) else (n', x)) degrees)
           < positiveDegrees degrees"
  using assms
proof (induction degrees)
  case Nil
  then show ?case by simp
next
  case (Cons a degrees)
  obtain n' x where a: "a = (n', x)" by (cases a)
  have le: "positiveDegrees (map (\<lambda>(n', x). if nodeTarget n' = t then (n', x - 1) else (n', x)) degrees)
              \<le> positiveDegrees degrees"
    by (rule positiveDegrees_decrement)
  show ?case
  proof (cases "a = (n, 1)")
    case True
    with le Cons.prems(2) show ?thesis by (simp add: positiveDegrees_def)
  next
    case False
    with Cons have "positiveDegrees (map (\<lambda>(n', x). if nodeTarget n' = t then (n', x - 1) else (n', x)) degrees)
              < positiveDegrees degrees" by simp
    then show ?thesis using a by (auto simp: positiveDegrees_def)
  qed
qed

lemma find_Some_mem: "find P xs = Some x \<Longrightarrow> x \<in> set xs \<and> P x"
  by (induction xs) (auto split: if_splits)

lemma visitEdge_measure:
  assumes "visitEdge (degrees, q) edge = Inr (degrees', q')"
  shows "positiveDegrees degrees' + length q' \<le> positiveDegrees degrees + length q"
proof -
  from assms obtain n d where
    f: "find (\<lambda>(n, _). nodeTarget n = exporter edge) degrees = Some (n, d)"
    by (auto simp: visitEdge_def split: option.splits)
  let ?degs = "map (\<lambda>(n', x). if nodeTarget n' = exporter edge then (n', x - 1) else (n', x)) degrees"
  show ?thesis
  proof (cases "d - 1 = 0")
    case True
    with f assms have eq: "degrees' = ?degs" "q' = q @ [n]"
      by (auto simp: visitEdge_def)
    from True have "d = 1" by simp
    with find_Some_mem[OF f] have "(n, 1) \<in> set degrees" "nodeTarget n = exporter edge" by auto
    from positiveDegrees_decrement_one[OF this] eq show ?thesis by simp
  next
    case False
    with f assms have eq: "degrees' = ?degs" "q' = q"
      by (auto simp: visitEdge_def)
    with positiveDegrees_decrement[of "exporter edge" degrees] show ?thesis by simp
  qed
qed

lemma visitEdges_measure:
  "visitEdges (degrees, q) edges = Inr (degrees', q') \<Longrightarrow>
   positiveDegrees degrees' + length q' \<le> positiveDegrees degrees + length q"
proof (induction edges arbitrary: degrees q)
  case Nil
  then show ?case by simp
next
  case (Cons edge edges)
  from Cons.prems obtain d1 q1 where
    s1: "visitEdge (degrees, q) edge = Inr (d1, q1)" and
    s2: "visitEdges (d1, q1) edges = Inr (degrees', q')"
    by (auto split: sum.splits)
  from visitEdge_measure[OF s1] Cons.IH[OF s2] show ?case by simp
qed

lemma visitEdge_length:
  "visitEdge (degrees, q) edge = Inr (degrees', q') \<Longrightarrow> length degrees' = length degrees"
  by (auto simp: visitEdge_def Let_def split: option.splits if_splits)

lemma visitEdges_length:
  "visitEdges (degrees, q) edges = Inr (degrees', q') \<Longrightarrow> length degrees' = length degrees"
proof (induction edges arbitrary: degrees q)
  case Nil
  then show ?case by simp
next
  case (Cons edge edges)
  from Cons.prems obtain d1 q1 where
    s1: "visitEdge (degrees, q) edge = Inr (d1, q1)" and
    s2: "visitEdges (d1, q1) edges = Inr (degrees', q')"
    by (auto split: sum.splits)
  from visitEdge_length[OF s1] Cons.IH[OF s2] show ?case by simp
qed

text \<open>
  The inner loop \<^verbatim>\<open>while (q.nonEmpty)\<close>: the dequeued item leaves \<^verbatim>\<open>degrees\<close>, its
  \<^verbatim>\<open>exportedBy\<close> edges are visited, and the item is prepended to \<^verbatim>\<open>result\<close>.
\<close>

function drain :: "Degrees \<Rightarrow> Node list \<Rightarrow> Node list \<Rightarrow> error + Degrees \<times> Node list" where
  "drain degrees [] result = Inr (degrees, result)"
| "drain degrees (item # q) result =
     (case visitEdges (removeKey degrees item, q) (exportedBy item) of
        Inl x \<Rightarrow> Inl x
      | Inr (degrees', q') \<Rightarrow> drain degrees' q' (item # result))"
  by pat_completeness auto
termination
proof (relation "measure (\<lambda>(degrees, q, result). positiveDegrees degrees + length q)")
  show "wf (measure (\<lambda>(degrees, q, result). positiveDegrees degrees + length q))" by simp
next
  fix degrees :: Degrees and item :: Node and q result :: "Node list" and x2 degrees' q'
  assume "visitEdges (removeKey degrees item, q) (exportedBy item) = Inr x2" "(degrees', q') = x2"
  then have "visitEdges (removeKey degrees item, q) (exportedBy item) = Inr (degrees', q')" by simp
  from visitEdges_measure[OF this] positiveDegrees_removeKey[of degrees item]
  show "((degrees', q', item # result), degrees, item # q, result)
          \<in> measure (\<lambda>(degrees, q, result). positiveDegrees degrees + length q)"
    by simp
qed

lemma drain_Cons_Inr:
  assumes "drain degrees (item # q) result = Inr r"
  obtains d1 q1 where
    "visitEdges (removeKey degrees item, q) (exportedBy item) = Inr (d1, q1)"
    "drain d1 q1 (item # result) = Inr r"
proof (cases "visitEdges (removeKey degrees item, q) (exportedBy item)")
  case (Inl a)
  with assms show ?thesis by simp
next
  case (Inr b)
  obtain d1 q1 where b: "b = (d1, q1)" by (cases b)
  with Inr assms have "drain d1 q1 (item # result) = Inr r" by simp
  with Inr b that show ?thesis by simp
qed

lemma length_removeKey: "length (removeKey degrees item) \<le> length degrees"
  by (simp add: removeKey_def)

lemma drain_length:
  "drain degrees q result = Inr (degrees', result') \<Longrightarrow> length degrees' \<le> length degrees"
proof (induction degrees q result rule: drain.induct)
  case (1 degrees result)
  then show ?case by simp
next
  case (2 degrees item q result)
  from "2.prems" obtain d1 q1 where
    s1: "visitEdges (removeKey degrees item, q) (exportedBy item) = Inr (d1, q1)" and
    s2: "drain d1 q1 (item # result) = Inr (degrees', result')"
    by (rule drain_Cons_Inr)
  have "length degrees' \<le> length d1" using "2.IH"[OF s1 refl s2] .
  also have "\<dots> = length (removeKey degrees item)" using visitEdges_length[OF s1] .
  also have "\<dots> \<le> length degrees" by (rule length_removeKey)
  finally show ?case .
qed

lemma drain_entry_length:
  assumes "drain degrees [entry] result = Inr (degrees', result')"
    and "(entry, d) \<in> set degrees"
  shows "length degrees' < length degrees"
proof -
  from assms(1) obtain d1 q1 where
    s1: "visitEdges (removeKey degrees entry, []) (exportedBy entry) = Inr (d1, q1)" and
    s2: "drain d1 q1 (entry # result) = Inr (degrees', result')"
    by (rule drain_Cons_Inr)
  have "length (removeKey degrees entry) < length degrees"
    unfolding removeKey_def using assms(2) by (intro length_filter_less[of "(entry, d)"]) auto
  with drain_length[OF s2] visitEdges_length[OF s1] show ?thesis by simp
qed

text \<open>
  The outer loop \<^verbatim>\<open>while (degrees.nonEmpty)\<close>: \<^verbatim>\<open>degrees.find {deg == 0}.get\<close> fails when no
  entry is zero.
\<close>

function topsortLoop :: "Degrees \<Rightarrow> Node list \<Rightarrow> error + Node list" where
  "topsortLoop degrees result =
     (if degrees = [] then Inr result
      else case find (\<lambda>(_, deg). deg = 0) degrees of
             None \<Rightarrow> Inl (NoSuchElementException ''None.get'')
           | Some (entry, _) \<Rightarrow>
               (case drain degrees [entry] result of
                  Inl x \<Rightarrow> Inl x
                | Inr (degrees', result') \<Rightarrow> topsortLoop degrees' result'))"
  by pat_completeness auto
termination
proof (relation "measure (\<lambda>(degrees, result). length degrees)")
  show "wf (measure (\<lambda>(degrees, result). length degrees))" by simp
next
  fix degrees :: Degrees and result :: "Node list" and x2 entry d x2a degrees' result'
  assume "find (\<lambda>(_, deg). deg = 0) degrees = Some x2" "(entry, d) = x2"
    "drain degrees [entry] result = Inr x2a" "(degrees', result') = x2a"
  then have f: "find (\<lambda>(_, deg). deg = 0) degrees = Some (entry, d)"
    and dr: "drain degrees [entry] result = Inr (degrees', result')" by simp_all
  from find_Some_mem[OF f] have "(entry, d) \<in> set degrees" by blast
  from drain_entry_length[OF dr this]
  show "((degrees', result'), degrees, result) \<in> measure (\<lambda>(degrees, result). length degrees)"
    by simp
qed

definition topsort :: "Node list \<Rightarrow> error + Node list" where
  "topsort nodes =
     (case topsortLoop (initialDegrees nodes) [] of
        Inl x \<Rightarrow> Inl x
      | Inr result \<Rightarrow> Inr (rev result))"

section \<open>run and runSort\<close>

definition lastOccurrences :: "Node list \<Rightarrow> Module list" where
  "lastOccurrences tops =
     rev (distinctScala (rev (map (\<lambda>n. unsafeAsModule (nodeTarget n)) tops)))"

text \<open>
  \<^verbatim>\<open>run\<close>. The result is \<open>None\<close> only if the depth bound of the cycle search was too small.
  \<^verbatim>\<open>resolveExportedSymbols\<close> fills the \<^verbatim>\<open>exportedSymbols\<close> tables of the modules, which are
  not part of the returned list; it reads the bindings maps that \<^verbatim>\<open>resolveExports\<close> has
  already written to.
\<close>

definition run :: "Bindings \<Rightarrow> Module list \<Rightarrow> (error + Module list) option" where
  "run getBindings modules =
     (let graph = buildGraph getBindings modules in
      case findCycles graph of
        None \<Rightarrow> None
      | Some cycles \<Rightarrow>
          Some (if cycles \<noteq> [] then
                  Inl (ExportCycleException
                         (map (\<lambda>n. unsafeAsModule (nodeTarget n)) (hd cycles)))
                else
                  (case topsort graph of
                     Inl x \<Rightarrow> Inl x
                   | Inr tops \<Rightarrow>
                       (case resolveExports getBindings tops of
                          Inl x \<Rightarrow> Inl x
                        | Inr resolved \<Rightarrow> Inr (lastOccurrences tops)))))"

definition runSort :: "Bindings \<Rightarrow> Module list \<Rightarrow> error + Module list" where
  "runSort getBindings modules =
     (case topsort (buildGraph getBindings modules) of
        Inl x \<Rightarrow> Inl x
      | Inr tops \<Rightarrow> Inr (lastOccurrences tops))"



section \<open>Walks along export edges and orders that exclude cycles\<close>

text \<open>
  The targets a target exports, read in a node list; a walk follows export edges; a list
  of targets has its exportees first if every target in it exports only targets that come
  later in the list (the list is read from the newest entry to the oldest).
\<close>

definition successors :: "Node list \<Rightarrow> ImportTarget \<Rightarrow> ImportTarget list" where
  "successors nodes t = map exportee (exports (deref nodes t))"

fun isWalk :: "Node list \<Rightarrow> ImportTarget list \<Rightarrow> bool" where
  "isWalk nodes [] = True"
| "isWalk nodes [x] = True"
| "isWalk nodes (x # y # rest) = (y \<in> set (successors nodes x) \<and> isWalk nodes (y # rest))"

fun exporteesFirst :: "Node list \<Rightarrow> ImportTarget list \<Rightarrow> bool" where
  "exporteesFirst nodes [] = True"
| "exporteesFirst nodes (v # vs) =
     (set (successors nodes v) \<subseteq> set vs \<and> exporteesFirst nodes vs)"

lemma exporteesFirst_closed:
  "exporteesFirst nodes vs \<Longrightarrow> t \<in> set vs \<Longrightarrow> set (successors nodes t) \<subseteq> set vs"
  by (induction vs) auto

lemma isWalk_stays:
  "exporteesFirst nodes vs \<Longrightarrow> isWalk nodes (t # seq) \<Longrightarrow> t \<in> set vs \<Longrightarrow> set seq \<subseteq> set vs"
proof (induction seq arbitrary: t)
  case Nil
  then show ?case by simp
next
  case (Cons y seq)
  from Cons.prems have y: "y \<in> set (successors nodes t)" and w: "isWalk nodes (y # seq)" by simp_all
  from exporteesFirst_closed[OF Cons.prems(1) Cons.prems(3)] y have "y \<in> set vs" by auto
  with Cons.IH[OF Cons.prems(1) w] show ?case by simp
qed

lemma exporteesFirst_no_return:
  "exporteesFirst nodes vs \<Longrightarrow> isWalk nodes (t # seq) \<Longrightarrow> seq \<noteq> [] \<Longrightarrow> t \<in> set vs
     \<Longrightarrow> last seq \<noteq> t"
proof (induction vs)
  case Nil
  then show ?case by simp
next
  case (Cons v vs)
  show ?case
  proof (cases "t \<in> set vs")
    case True
    with Cons show ?thesis by simp
  next
    case False
    with Cons.prems(4) have tv: "t = v" by simp
    from Cons.prems(3) obtain y rest where seq: "seq = y # rest" by (cases seq) auto
    with Cons.prems(2) have y: "y \<in> set (successors nodes t)" and w: "isWalk nodes (y # rest)"
      by simp_all
    from Cons.prems(1) tv y have yv: "y \<in> set vs" by auto
    from Cons.prems(1) have "exporteesFirst nodes vs" by simp
    from isWalk_stays[OF this w yv] yv seq have "set seq \<subseteq> set vs" by simp
    with Cons.prems(3) have "last seq \<in> set vs" using last_in_set by blast
    with False show ?thesis by auto
  qed
qed

lemma nodeTarget_deref: "nodeTarget (deref nodes t) = t"
proof (cases "find (\<lambda>n. nodeTarget n = t) nodes")
  case None
  then show ?thesis by (simp add: deref_def)
next
  case (Some n)
  from find_Some_mem[OF Some] Some show ?thesis by (simp add: deref_def)
qed

lemma deref_mem_or_leaf: "deref nodes t \<in> set nodes \<or> exports (deref nodes t) = []"
proof (cases "find (\<lambda>n. nodeTarget n = t) nodes")
  case None
  then show ?thesis by (simp add: deref_def)
next
  case (Some n)
  from find_Some_mem[OF Some] Some show ?thesis by (simp add: deref_def)
qed

lemma deref_distinct:
  "distinct (map nodeTarget nodes) \<Longrightarrow> n \<in> set nodes \<Longrightarrow> deref nodes (nodeTarget n) = n"
proof (induction nodes)
  case Nil
  then show ?case by simp
next
  case (Cons a nodes)
  show ?case
  proof (cases "nodeTarget a = nodeTarget n")
    case True
    with Cons.prems have "a = n" by (auto simp: image_iff)
    then show ?thesis by (simp add: deref_def)
  next
    case False
    with Cons.prems have "n \<in> set nodes" "distinct (map nodeTarget nodes)" by auto
    from Cons.IH[OF this(2) this(1)] False show ?thesis by (simp add: deref_def)
  qed
qed

lemma deref_idem: "deref nodes (nodeTarget (deref nodes t)) = deref nodes t"
  by (simp add: nodeTarget_deref)


section \<open>The cycle search\<close>

lemma go_Suc_cases:
  assumes "go nodes (Suc fuel) node (V, P, F) = Some (r, s')"
  obtains
    (inProgress) "nodeTarget node \<in> set P" "r = Some (node, [])" "s' = (V, P, F)"
  | (visited) "nodeTarget node \<notin> set P" "nodeTarget node \<in> set V" "r = None" "s' = (V, P, F)"
  | (explored) rs V1 P1 F1 where
      "nodeTarget node \<notin> set P" "nodeTarget node \<notin> set V"
      "goChildren nodes fuel (map (\<lambda>e. deref nodes (exportee e)) (exports node))
         (V, nodeTarget node # P, F) = Some (rs, (V1, P1, F1))"
      "(rs = [] \<and> r = None
          \<and> s' = (List.insert (nodeTarget node) V1, removeAll (nodeTarget node) P1, F1))
       \<or> (\<exists>m path rest. rs = (m, path) # rest \<and> nodeTarget m = nodeTarget node \<and> r = None
          \<and> s' = (List.insert (nodeTarget node) V1, removeAll (nodeTarget node) P1,
                   (m # path) # F1))
       \<or> (\<exists>m path rest. rs = (m, path) # rest \<and> nodeTarget m \<noteq> nodeTarget node
          \<and> r = Some (m, node # path)
          \<and> s' = (List.insert (nodeTarget node) V1, removeAll (nodeTarget node) P1, F1))"
proof (cases "nodeTarget node \<in> set P")
  case True
  with assms inProgress show ?thesis by simp
next
  case notP: False
  show ?thesis
  proof (cases "nodeTarget node \<in> set V")
    case True
    with notP assms visited show ?thesis by simp
  next
    case notV: False
    let ?c = "goChildren nodes fuel (map (\<lambda>e. deref nodes (exportee e)) (exports node))
                (V, nodeTarget node # P, F)"
    from assms notP notV obtain x where x: "?c = Some x" by (cases ?c) auto
    obtain rs V1 P1 F1 where xs: "x = (rs, (V1, P1, F1))" by (cases x) auto
    show ?thesis
    proof (cases rs)
      case Nil
      with assms notP notV x xs have "r = None"
        "s' = (List.insert (nodeTarget node) V1, removeAll (nodeTarget node) P1, F1)"
        by simp_all
      with Nil x xs notP notV explored show ?thesis by blast
    next
      case (Cons a rest)
      obtain m path where a: "a = (m, path)" by (cases a)
      show ?thesis
      proof (cases "nodeTarget m = nodeTarget node")
        case True
        with assms notP notV x xs Cons a have "r = None"
          "s' = (List.insert (nodeTarget node) V1, removeAll (nodeTarget node) P1, (m # path) # F1)"
          by simp_all
        with Cons a True x xs notP notV explored show ?thesis by blast
      next
        case False
        with assms notP notV x xs Cons a have "r = Some (m, node # path)"
          "s' = (List.insert (nodeTarget node) V1, removeAll (nodeTarget node) P1, F1)"
          by simp_all
        with Cons a False x xs notP notV explored show ?thesis by blast
      qed
    qed
  qed
qed

lemma goChildren_Cons_cases:
  assumes "goChildren nodes fuel (c # cs) s = Some (rs, s'')"
  obtains r s' rs' where
    "go nodes fuel c s = Some (r, s')"
    "goChildren nodes fuel cs s' = Some (rs', s'')"
    "rs = (case r of None \<Rightarrow> [] | Some x \<Rightarrow> [x]) @ rs'"
proof (cases "go nodes fuel c s")
  case None
  with assms show ?thesis by simp
next
  case (Some a)
  obtain r s' where a: "a = (r, s')" by (cases a)
  show ?thesis
  proof (cases "goChildren nodes fuel cs s'")
    case None
    with assms Some a show ?thesis by simp
  next
    case (Some b)
    obtain rs' t where b: "b = (rs', t)" by (cases b)
    with assms \<open>go nodes fuel c s = Some a\<close> a Some
    have "rs = (case r of None \<Rightarrow> [] | Some x \<Rightarrow> [x]) @ rs'" "t = s''" by simp_all
    with that \<open>go nodes fuel c s = Some a\<close> a Some b show ?thesis by simp
  qed
qed

text \<open>What a call leaves unchanged: \<^verbatim>\<open>inProgress\<close> is restored, the other two only grow.\<close>

definition frame :: "DfsState \<Rightarrow> DfsState \<Rightarrow> bool" where
  "frame s s' =
     (case (s, s') of ((V, P, F), (V', P', F')) \<Rightarrow>
        P' = P \<and> set V \<subseteq> set V' \<and> (\<exists>new. F' = new @ F))"

lemma frame_refl: "frame s s"
  by (cases s) (simp add: frame_def)

lemma frame_trans: "frame s s' \<Longrightarrow> frame s' s'' \<Longrightarrow> frame s s''"
  by (cases s; cases s'; cases s'') (auto simp: frame_def)

lemma goChildren_frame_step:
  assumes go: "\<And>c s r s'. go nodes fuel c s = Some (r, s') \<Longrightarrow> frame s s'"
  shows "goChildren nodes fuel cs s = Some (rs, s'') \<Longrightarrow> frame s s''"
proof (induction cs arbitrary: s rs)
  case Nil
  then show ?case by (simp add: frame_refl)
next
  case (Cons c cs)
  from Cons.prems obtain r s' rs' where
    1: "go nodes fuel c s = Some (r, s')" and 2: "goChildren nodes fuel cs s' = Some (rs', s'')"
    by (rule goChildren_Cons_cases)
  from go[OF 1] Cons.IH[OF 2] show ?case by (rule frame_trans)
qed

lemma go_frame: "go nodes fuel node s = Some (r, s') \<Longrightarrow> frame s s'"
proof (induction fuel arbitrary: node s r s')
  case 0
  then show ?case by simp
next
  case (Suc fuel)
  obtain V P F where s: "s = (V, P, F)" by (cases s)
  from Suc.prems[unfolded s] show ?case
  proof (cases rule: go_Suc_cases)
    case inProgress
    then show ?thesis by (simp add: s frame_refl)
  next
    case visited
    then show ?thesis by (simp add: s frame_refl)
  next
    case (explored rs V1 P1 F1)
    have "frame (V, nodeTarget node # P, F) (V1, P1, F1)"
      using goChildren_frame_step[OF Suc.IH explored(3)] .
    then have f: "P1 = nodeTarget node # P" "set V \<subseteq> set V1" "\<exists>new. F1 = new @ F"
      by (simp_all add: frame_def)
    with explored(1) have "removeAll (nodeTarget node) P1 = P" by simp
    with f explored(4) show ?thesis unfolding s frame_def by auto
  qed
qed

lemma goChildren_frame: "goChildren nodes fuel cs s = Some (rs, s'') \<Longrightarrow> frame s s''"
  using goChildren_frame_step[OF go_frame] .


text \<open>
  A node of the search is the node its target stands for. What \<^verbatim>\<open>go\<close> hands up to its caller
  is a node \<open>m\<close> that is in progress and the nodes from the called node down to the one that
  found \<open>m\<close>; a reported cycle is genuine if export edges lead from each of its nodes to the
  next and from the last back to the first.
\<close>

definition isNode :: "Node list \<Rightarrow> Node \<Rightarrow> bool" where
  "isNode nodes n = (deref nodes (nodeTarget n) = n)"

definition resultOk :: "Node list \<Rightarrow> ImportTarget list \<Rightarrow> Node \<Rightarrow> Node \<times> Node list \<Rightarrow> bool"
  where
  "resultOk nodes P c x =
     (case x of (m, path) \<Rightarrow>
        nodeTarget m \<in> set P
        \<and> isWalk nodes (map nodeTarget path @ [nodeTarget m])
        \<and> hd (map nodeTarget path @ [nodeTarget m]) = nodeTarget c)"

definition genuine :: "Node list \<Rightarrow> Node list \<Rightarrow> bool" where
  "genuine nodes cyc = (cyc \<noteq> [] \<and> isWalk nodes (map nodeTarget cyc @ [nodeTarget (hd cyc)]))"

lemma isNode_deref: "isNode nodes (deref nodes t)"
  by (simp add: isNode_def nodeTarget_deref)

lemma isWalk_Cons:
  "seq \<noteq> [] \<Longrightarrow> isWalk nodes (t # seq) = (hd seq \<in> set (successors nodes t) \<and> isWalk nodes seq)"
  by (cases seq) auto

lemma successors_isNode:
  "isNode nodes node \<Longrightarrow> successors nodes (nodeTarget node) = map exportee (exports node)"
  by (simp add: successors_def isNode_def)

lemma goChildren_sound_step:
  assumes go: "\<forall>c V P F r V' P' F'. isNode nodes c \<longrightarrow>
                 go nodes fuel c (V, P, F) = Some (r, (V', P', F')) \<longrightarrow>
                 (\<forall>x. r = Some x \<longrightarrow> resultOk nodes P c x)
                 \<and> ((\<forall>cyc \<in> set F. genuine nodes cyc) \<longrightarrow> (\<forall>cyc \<in> set F'. genuine nodes cyc))"
  shows "\<forall>c \<in> set cs. isNode nodes c \<Longrightarrow>
         goChildren nodes fuel cs (V, P, F) = Some (rs, (V', P', F')) \<Longrightarrow>
         (\<forall>x \<in> set rs. \<exists>c \<in> set cs. resultOk nodes P c x)
         \<and> ((\<forall>cyc \<in> set F. genuine nodes cyc) \<longrightarrow> (\<forall>cyc \<in> set F'. genuine nodes cyc))"
proof (induction cs arbitrary: V F rs)
  case Nil
  then show ?case by simp
next
  case (Cons c cs)
  from Cons.prems(2) obtain r s1 rs' where
    1: "go nodes fuel c (V, P, F) = Some (r, s1)" and
    2: "goChildren nodes fuel cs s1 = Some (rs', (V', P', F'))" and
    3: "rs = (case r of None \<Rightarrow> [] | Some x \<Rightarrow> [x]) @ rs'"
    by (rule goChildren_Cons_cases)
  obtain V1 P1 F1 where s1: "s1 = (V1, P1, F1)" by (cases s1)
  from go_frame[OF 1] s1 have P1: "P1 = P" by (simp add: frame_def)
  from Cons.prems(1) have c: "isNode nodes c" and cs: "\<forall>c \<in> set cs. isNode nodes c" by simp_all
  note a = go[rule_format, OF c 1[unfolded s1]]
  note b = Cons.IH[OF cs 2[unfolded s1 P1]]
  from a b 3 show ?case by (auto split: option.splits)
qed

lemma go_sound:
  "isNode nodes node \<Longrightarrow> go nodes fuel node (V, P, F) = Some (r, (V', P', F')) \<Longrightarrow>
   (\<forall>x. r = Some x \<longrightarrow> resultOk nodes P node x)
   \<and> ((\<forall>cyc \<in> set F. genuine nodes cyc) \<longrightarrow> (\<forall>cyc \<in> set F'. genuine nodes cyc))"
proof (induction fuel arbitrary: node V P F r V' P' F')
  case 0
  then show ?case by simp
next
  case (Suc fuel)
  let ?t = "nodeTarget node"
  from Suc.prems(2) show ?case
  proof (cases rule: go_Suc_cases)
    case inProgress
    then show ?thesis by (simp add: resultOk_def)
  next
    case visited
    then show ?thesis by simp
  next
    case (explored rs V1 P1 F1)
    have kids: "\<forall>c \<in> set (map (\<lambda>e. deref nodes (exportee e)) (exports node)). isNode nodes c"
      by (simp add: isNode_deref)
    have ih: "\<forall>c V P F r V' P' F'. isNode nodes c \<longrightarrow>
                 go nodes fuel c (V, P, F) = Some (r, (V', P', F')) \<longrightarrow>
                 (\<forall>x. r = Some x \<longrightarrow> resultOk nodes P c x)
                 \<and> ((\<forall>cyc \<in> set F. genuine nodes cyc) \<longrightarrow> (\<forall>cyc \<in> set F'. genuine nodes cyc))"
      using Suc.IH by blast
    from goChildren_sound_step[OF ih kids explored(3)]
    have res: "\<forall>x \<in> set rs. \<exists>c \<in> set (map (\<lambda>e. deref nodes (exportee e)) (exports node)).
                 resultOk nodes (?t # P) c x"
      and gen: "(\<forall>cyc \<in> set F. genuine nodes cyc) \<longrightarrow> (\<forall>cyc \<in> set F1. genuine nodes cyc)"
      by blast+
    have head: "isWalk nodes (?t # map nodeTarget path @ [nodeTarget m])
                \<and> nodeTarget m \<in> set (?t # P)"
      if "rs = (m, path) # rest" for m path rest
    proof -
      from res that obtain c where
        c: "c \<in> set (map (\<lambda>e. deref nodes (exportee e)) (exports node))" and
        ok: "resultOk nodes (?t # P) c (m, path)" by auto
      from c have "nodeTarget c \<in> set (successors nodes ?t)"
        by (auto simp: successors_isNode[OF Suc.prems(1)] nodeTarget_deref)
      with ok show ?thesis
        by (simp add: resultOk_def isWalk_Cons)
    qed
    from explored(4) show ?thesis
    proof (elim disjE exE conjE)
      assume "rs = []" "r = None"
        "(V', P', F') = (List.insert ?t V1, removeAll ?t P1, F1)"
      with gen show ?thesis by simp
    next
      fix m path rest
      assume a: "rs = (m, path) # rest" "nodeTarget m = ?t" "r = None"
        "(V', P', F') = (List.insert ?t V1, removeAll ?t P1, (m # path) # F1)"
      from head[OF a(1)] a(2) have "genuine nodes (m # path)"
        by (simp add: genuine_def)
      with gen a show ?thesis by simp
    next
      fix m path rest
      assume a: "rs = (m, path) # rest" "nodeTarget m \<noteq> ?t" "r = Some (m, node # path)"
        "(V', P', F') = (List.insert ?t V1, removeAll ?t P1, F1)"
      from head[OF a(1)] a(2) have "resultOk nodes P node (m, node # path)"
        by (simp add: resultOk_def)
      with gen a show ?thesis by simp
    qed
  qed
qed

lemma goChildren_sound:
  assumes "\<forall>c \<in> set cs. isNode nodes c"
    and "goChildren nodes fuel cs (V, P, F) = Some (rs, (V', P', F'))"
  shows "(\<forall>x \<in> set rs. \<exists>c \<in> set cs. resultOk nodes P c x)
   \<and> ((\<forall>cyc \<in> set F. genuine nodes cyc) \<longrightarrow> (\<forall>cyc \<in> set F'. genuine nodes cyc))"
proof (rule goChildren_sound_step[OF _ assms])
  show "\<forall>c V P F r V' P' F'. isNode nodes c \<longrightarrow>
          go nodes fuel c (V, P, F) = Some (r, (V', P', F')) \<longrightarrow>
          (\<forall>x. r = Some x \<longrightarrow> resultOk nodes P c x)
          \<and> ((\<forall>cyc \<in> set F. genuine nodes cyc) \<longrightarrow> (\<forall>cyc \<in> set F'. genuine nodes cyc))"
    using go_sound by blast
qed


text \<open>
  A call that neither hands anything up nor records a cycle has visited its node, and the
  visited list keeps exportees first.
\<close>

lemma frame_same_cycles:
  assumes "frame (V, P, F) (V1, P1, F1)" "frame (V1, P1, F1) (V', P', F)"
  shows "F1 = F"
  using assms by (auto simp: frame_def)

lemma goChildren_clean_step:
  assumes go: "\<forall>c V P F V' P'. isNode nodes c \<longrightarrow> exporteesFirst nodes V \<longrightarrow>
                 go nodes fuel c (V, P, F) = Some (None, (V', P', F)) \<longrightarrow>
                 exporteesFirst nodes V' \<and> nodeTarget c \<in> set V'"
  shows "\<forall>c \<in> set cs. isNode nodes c \<Longrightarrow> exporteesFirst nodes V \<Longrightarrow>
         goChildren nodes fuel cs (V, P, F) = Some ([], (V', P', F)) \<Longrightarrow>
         exporteesFirst nodes V' \<and> nodeTarget ` set cs \<subseteq> set V'"
proof (induction cs arbitrary: V P)
  case Nil
  then show ?case by simp
next
  case (Cons c cs)
  from Cons.prems(3) obtain r s1 rs' where
    1: "go nodes fuel c (V, P, F) = Some (r, s1)" and
    2: "goChildren nodes fuel cs s1 = Some (rs', (V', P', F))" and
    3: "[] = (case r of None \<Rightarrow> [] | Some x \<Rightarrow> [x]) @ rs'"
    by (rule goChildren_Cons_cases)
  obtain V1 P1 F1 where s1: "s1 = (V1, P1, F1)" by (cases s1)
  from 3 have r: "r = None" and rs': "rs' = []" by (auto split: option.splits)
  have F1: "F1 = F"
    using frame_same_cycles[OF go_frame[OF 1, unfolded s1] goChildren_frame[OF 2, unfolded s1]] .
  from Cons.prems(1) have c: "isNode nodes c" and cs: "\<forall>c \<in> set cs. isNode nodes c" by simp_all
  from go[rule_format, OF c Cons.prems(2) 1[unfolded s1 r F1]]
  have a: "exporteesFirst nodes V1" "nodeTarget c \<in> set V1" by simp_all
  from Cons.IH[OF cs a(1) 2[unfolded s1 rs' F1]]
  have b: "exporteesFirst nodes V'" "nodeTarget ` set cs \<subseteq> set V'" by simp_all
  from goChildren_frame[OF 2, unfolded s1] have "set V1 \<subseteq> set V'" by (simp add: frame_def)
  with a b show ?case by auto
qed

lemma go_clean:
  "isNode nodes node \<Longrightarrow> exporteesFirst nodes V \<Longrightarrow>
   go nodes fuel node (V, P, F) = Some (None, (V', P', F)) \<Longrightarrow>
   exporteesFirst nodes V' \<and> nodeTarget node \<in> set V'"
proof (induction fuel arbitrary: node V P F V' P')
  case 0
  then show ?case by simp
next
  case (Suc fuel)
  let ?t = "nodeTarget node"
  from Suc.prems(3) show ?case
  proof (cases rule: go_Suc_cases)
    case inProgress
    then show ?thesis by simp
  next
    case visited
    with Suc.prems(2) show ?thesis by simp
  next
    case (explored rs V1 P1 F1)
    have fr: "frame (V, ?t # P, F) (V1, P1, F1)" using goChildren_frame[OF explored(3)] .
    then obtain new where new: "F1 = new @ F" by (auto simp: frame_def)
    from explored(4) new have rs: "rs = []" and F1: "F1 = F"
      and V': "V' = List.insert ?t V1" by auto
    have ih: "\<forall>c V P F V' P'. isNode nodes c \<longrightarrow> exporteesFirst nodes V \<longrightarrow>
                 go nodes fuel c (V, P, F) = Some (None, (V', P', F)) \<longrightarrow>
                 exporteesFirst nodes V' \<and> nodeTarget c \<in> set V'"
      using Suc.IH by blast
    have kids: "\<forall>c \<in> set (map (\<lambda>e. deref nodes (exportee e)) (exports node)). isNode nodes c"
      by (simp add: isNode_deref)
    from goChildren_clean_step[OF ih kids Suc.prems(2) explored(3)[unfolded rs F1]]
    have ef: "exporteesFirst nodes V1"
      and sub: "nodeTarget ` set (map (\<lambda>e. deref nodes (exportee e)) (exports node)) \<subseteq> set V1"
      by simp_all
    have "nodeTarget ` set (map (\<lambda>e. deref nodes (exportee e)) (exports node))
            = set (successors nodes ?t)"
      by (simp add: successors_isNode[OF Suc.prems(1)] image_image nodeTarget_deref)
    with sub have "set (successors nodes ?t) \<subseteq> set V1" by simp
    with ef V' show ?thesis by (simp add: List.insert_def)
  qed
qed

lemma goChildren_clean:
  assumes "\<forall>c \<in> set cs. isNode nodes c" "exporteesFirst nodes V"
    and "goChildren nodes fuel cs (V, P, F) = Some ([], (V', P', F))"
  shows "exporteesFirst nodes V' \<and> nodeTarget ` set cs \<subseteq> set V'"
proof (rule goChildren_clean_step[OF _ assms])
  show "\<forall>c V P F V' P'. isNode nodes c \<longrightarrow> exporteesFirst nodes V \<longrightarrow>
          go nodes fuel c (V, P, F) = Some (None, (V', P', F)) \<longrightarrow>
          exporteesFirst nodes V' \<and> nodeTarget c \<in> set V'"
    using go_clean by blast
qed

text \<open>The depth bound \<open>length nodes + 2\<close> is never reached.\<close>

lemma goChildren_fuel_step:
  assumes go: "\<forall>c V F. (c \<in> set nodes \<or> exports c = []) \<longrightarrow> go nodes fuel c (V, P, F) \<noteq> None"
  shows "\<forall>c \<in> set cs. c \<in> set nodes \<or> exports c = [] \<Longrightarrow>
         goChildren nodes fuel cs (V, P, F) \<noteq> None"
proof (induction cs arbitrary: V F)
  case Nil
  then show ?case by simp
next
  case (Cons c cs)
  from Cons.prems have c: "c \<in> set nodes \<or> exports c = []"
    and cs: "\<forall>c \<in> set cs. c \<in> set nodes \<or> exports c = []" by simp_all
  from go[rule_format, OF c, of V F] obtain x where "go nodes fuel c (V, P, F) = Some x"
    by blast
  then obtain r s1 where 1: "go nodes fuel c (V, P, F) = Some (r, s1)"
    by (cases x) simp
  obtain V1 P1 F1 where s1: "s1 = (V1, P1, F1)" by (cases s1)
  from go_frame[OF 1] s1 have P1: "P1 = P" by (simp add: frame_def)
  from Cons.IH[OF cs, of V1 F1] 1 s1 P1 show ?case by auto
qed

lemma go_fuel:
  "node \<in> set nodes \<or> exports node = [] \<Longrightarrow>
   card (nodeTarget ` set nodes - set P) + 2 \<le> fuel \<Longrightarrow>
   go nodes fuel node (V, P, F) \<noteq> None"
proof (induction fuel arbitrary: node V P F)
  case 0
  then show ?case by simp
next
  case (Suc fuel)
  let ?t = "nodeTarget node"
  let ?kids = "map (\<lambda>e. deref nodes (exportee e)) (exports node)"
  show ?case
  proof (cases "?t \<in> set P \<or> ?t \<in> set V")
    case True
    then show ?thesis by auto
  next
    case False
    have kids: "\<forall>c \<in> set ?kids. c \<in> set nodes \<or> exports c = []"
      using deref_mem_or_leaf by auto
    have "goChildren nodes fuel ?kids (V, ?t # P, F) \<noteq> None"
    proof (cases "exports node = []")
      case True
      then show ?thesis by simp
    next
      case nonleaf: False
      with Suc.prems(1) have "node \<in> set nodes" by simp
      with False have t: "?t \<in> nodeTarget ` set nodes - set P" by simp
      have "nodeTarget ` set nodes - set (?t # P) = (nodeTarget ` set nodes - set P) - {?t}"
        by auto
      then have "card (nodeTarget ` set nodes - set (?t # P))
                   = card (nodeTarget ` set nodes - set P) - 1"
        using t by simp
      moreover have "card (nodeTarget ` set nodes - set P) \<ge> 1"
        using t by (metis One_nat_def Suc_leI card_gt_0_iff empty_iff finite_Diff finite_imageI finite_set)
      ultimately have bound: "card (nodeTarget ` set nodes - set (?t # P)) + 2 \<le> fuel"
        using Suc.prems(2) by simp
      have ih: "\<forall>c V F. (c \<in> set nodes \<or> exports c = []) \<longrightarrow>
                  go nodes fuel c (V, ?t # P, F) \<noteq> None"
        using Suc.IH[OF _ bound] by blast
      from goChildren_fuel_step[OF ih kids] show ?thesis .
    qed
    then obtain x where x: "goChildren nodes fuel ?kids (V, ?t # P, F) = Some x" by auto
    obtain rs V1 P1 F1 where "x = (rs, (V1, P1, F1))" by (cases x) auto
    with x False show ?thesis
      by (cases rs) (auto simp: Let_def split: prod.splits)
  qed
qed

lemma findCycles_returns: "findCycles nodes \<noteq> None"
proof -
  have "card (nodeTarget ` set nodes) \<le> card (set nodes)"
    by (rule card_image_le) simp
  also have "\<dots> \<le> length nodes" by (rule card_length)
  finally have "card (nodeTarget ` set nodes - set []) \<le> length nodes" by simp
  then have bound: "card (nodeTarget ` set nodes - set []) + 2 \<le> length nodes + 2" by simp
  have go: "\<forall>c V F. (c \<in> set nodes \<or> exports c = []) \<longrightarrow>
              go nodes (length nodes + 2) c (V, [], F) \<noteq> None"
    using go_fuel[OF _ bound] by blast
  have "goChildren nodes (length nodes + 2) nodes ([], [], []) \<noteq> None"
    by (rule goChildren_fuel_step[OF go]) simp
  then show ?thesis by (auto simp: findCycles_def split: prod.splits)
qed


lemma findCycles_genuine:
  assumes d: "distinct (map nodeTarget nodes)" and f: "findCycles nodes = Some cycles"
  shows "\<forall>cyc \<in> set cycles. genuine nodes cyc"
proof -
  from f obtain rs V' P' where
    g: "goChildren nodes (length nodes + 2) nodes ([], [], []) = Some (rs, (V', P', cycles))"
    by (auto simp: findCycles_def split: option.splits prod.splits)
  have "\<forall>c \<in> set nodes. isNode nodes c"
    using deref_distinct[OF d] by (simp add: isNode_def)
  from goChildren_sound[OF this g] show ?thesis by simp
qed

lemma findCycles_empty_no_cycle:
  assumes d: "distinct (map nodeTarget nodes)" and f: "findCycles nodes = Some []"
    and w: "isWalk nodes (t # seq)" "seq \<noteq> []" and t: "t \<in> nodeTarget ` set nodes"
  shows "last seq \<noteq> t"
proof -
  from f obtain rs V' P' where
    g: "goChildren nodes (length nodes + 2) nodes ([], [], []) = Some (rs, (V', P', []))"
    by (auto simp: findCycles_def split: option.splits prod.splits)
  have n: "\<forall>c \<in> set nodes. isNode nodes c"
    using deref_distinct[OF d] by (simp add: isNode_def)
  from goChildren_sound[OF n g] have "\<forall>x \<in> set rs. \<exists>c \<in> set nodes. resultOk nodes [] c x"
    by simp
  then have "rs = []" by (cases rs) (auto simp: resultOk_def)
  from goChildren_clean[OF n _ g[unfolded this]]
  have "exporteesFirst nodes V'" "nodeTarget ` set nodes \<subseteq> set V'" by simp_all
  with exporteesFirst_no_return[OF this(1) w] t show ?thesis by auto
qed

subsection \<open>Cycles of export declarations\<close>

text \<open>
  A chain of modules in which every module declares an export of the next one, and an
  export cycle of a module list: a chain of listed modules that leads back to its start.
\<close>

fun isChain :: "Bindings \<Rightarrow> Module list \<Rightarrow> bool" where
  "isChain getBindings [] = True"
| "isChain getBindings [m] = True"
| "isChain getBindings (m # m' # rest) =
     (ResolvedModule m' \<in> target ` set (directExports getBindings m)
      \<and> isChain getBindings (m' # rest))"

definition isExportCycle :: "Bindings \<Rightarrow> Module list \<Rightarrow> Module list \<Rightarrow> bool" where
  "isExportCycle getBindings modules c =
     (c \<noteq> [] \<and> set c \<subseteq> set modules \<and> isChain getBindings (c @ [hd c]))"

lemma deref_not_mem: "t \<notin> nodeTarget ` set nodes \<Longrightarrow> deref nodes t = Node t [] []"
proof -
  assume "t \<notin> nodeTarget ` set nodes"
  then have "find (\<lambda>n. nodeTarget n = t) nodes = None"
    by (auto simp: find_None_iff)
  then show ?thesis by (simp add: deref_def)
qed

lemma successors_buildGraph:
  "successors (buildGraph b ms) t
     = (if t \<in> ResolvedModule ` set ms
        then map target (directExports b (unsafeAsModule t)) else [])"
proof (cases "t \<in> nodeTarget ` set (buildGraph b ms)")
  case True
  then obtain N where N: "N \<in> set (buildGraph b ms)" "nodeTarget N = t" by auto
  from deref_distinct[OF buildGraph_targets_distinct N(1)] N(2)
  have "deref (buildGraph b ms) t = N" by simp
  with buildGraph_exports[OF N(1)] N(2) show ?thesis
    by (simp add: successors_def edgesOf_def comp_def)
next
  case False
  then have "t \<notin> ResolvedModule ` set ms" by (simp add: buildGraph_targets)
  with deref_not_mem[OF False] show ?thesis by (simp add: successors_def)
qed

lemma isChain_isWalk:
  "set (butlast c) \<subseteq> set ms \<Longrightarrow> isChain b c \<Longrightarrow> isWalk (buildGraph b ms) (map ResolvedModule c)"
proof (induction b c rule: isChain.induct)
  case (3 b m m' rest)
  then show ?case by (auto simp: successors_buildGraph)
qed simp_all

lemma isWalk_isChain:
  "isWalk (buildGraph b ms) (map ResolvedModule c) \<Longrightarrow> isChain b c"
proof (induction b c rule: isChain.induct)
  case (3 b m m' rest)
  then show ?case by (auto simp: successors_buildGraph split: if_splits)
qed simp_all

lemma isWalk_sources:
  "isWalk nodes (ts @ [x]) \<Longrightarrow> \<forall>t \<in> set ts. successors nodes t \<noteq> []"
proof (induction ts)
  case Nil
  then show ?case by simp
next
  case (Cons a ts)
  then have "isWalk nodes (a # (ts @ [x]))" by simp
  then have "hd (ts @ [x]) \<in> set (successors nodes a)" "isWalk nodes (ts @ [x])"
    by (simp_all add: isWalk_Cons)
  with Cons.IH show ?case by auto
qed

lemma genuine_isExportCycle:
  assumes "genuine (buildGraph b ms) cyc"
  shows "isExportCycle b ms (map (\<lambda>n. unsafeAsModule (nodeTarget n)) cyc)"
proof -
  let ?G = "buildGraph b ms"
  let ?c = "map (\<lambda>n. unsafeAsModule (nodeTarget n)) cyc"
  from assms have ne: "cyc \<noteq> []"
    and w: "isWalk ?G (map nodeTarget cyc @ [nodeTarget (hd cyc)])"
    by (simp_all add: genuine_def)
  from isWalk_sources[OF w] have "\<forall>t \<in> set (map nodeTarget cyc). t \<in> ResolvedModule ` set ms"
    by (auto simp: successors_buildGraph split: if_splits)
  then have rm: "\<forall>n \<in> set cyc. nodeTarget n \<in> ResolvedModule ` set ms" by simp
  then have eq: "map ResolvedModule ?c = map nodeTarget cyc" by auto
  from rm have sub: "set ?c \<subseteq> set ms" by auto
  from ne rm have "ResolvedModule (hd ?c) = nodeTarget (hd cyc)"
    by (cases cyc) auto
  with eq have eq2: "map ResolvedModule (?c @ [hd ?c]) = map nodeTarget cyc @ [nodeTarget (hd cyc)]"
    by simp
  have "isWalk ?G (map ResolvedModule (?c @ [hd ?c]))" unfolding eq2 by (rule w)
  from isWalk_isChain[OF this] ne sub show ?thesis by (simp add: isExportCycle_def)
qed

lemma isExportCycle_walk:
  assumes "isExportCycle b ms c"
  shows "isWalk (buildGraph b ms) (ResolvedModule (hd c) # map ResolvedModule (tl c @ [hd c]))"
    and "ResolvedModule (hd c) \<in> nodeTarget ` set (buildGraph b ms)"
proof -
  from assms have ne: "c \<noteq> []" and sub: "set c \<subseteq> set ms" and ch: "isChain b (c @ [hd c])"
    by (simp_all add: isExportCycle_def)
  have "set (butlast (c @ [hd c])) \<subseteq> set ms" using sub by simp
  from isChain_isWalk[OF this ch] ne
  show "isWalk (buildGraph b ms) (ResolvedModule (hd c) # map ResolvedModule (tl c @ [hd c]))"
    by (cases c) simp_all
  from ne sub have "hd c \<in> set ms" by (cases c) auto
  then show "ResolvedModule (hd c) \<in> nodeTarget ` set (buildGraph b ms)"
    by (simp add: buildGraph_targets)
qed

lemma findCycles_buildGraph_finds:
  assumes "isExportCycle b ms c"
  shows "\<exists>cyc cycles. findCycles (buildGraph b ms) = Some (cyc # cycles)"
proof -
  let ?G = "buildGraph b ms"
  from findCycles_returns[of ?G] obtain found where f: "findCycles ?G = Some found" by auto
  have "found \<noteq> []"
  proof
    assume "found = []"
    with f have e: "findCycles ?G = Some []" by simp
    from findCycles_empty_no_cycle[OF buildGraph_targets_distinct e isExportCycle_walk(1)[OF assms] _
        isExportCycle_walk(2)[OF assms]]
    show False by simp
  qed
  with f show ?thesis by (cases found) auto
qed

definition cycleBindings :: Bindings where
  "cycleBindings = map_of
     [(0, [ExportedModule (ResolvedModule 1) None []]),
      (1, [ExportedModule (ResolvedModule 2) None []]),
      (2, [ExportedModule (ResolvedModule 0) None []])]"

text \<open>
  Claim C2. When the export declarations of the listed modules contain a cycle, \<^verbatim>\<open>run\<close> ends
  with \<^verbatim>\<open>ExportCycleException\<close>, and the modules the exception carries are a genuine cycle:
  each of them declares an export of the next, and the last one of the first.
\<close>

theorem run_reports_genuine_cycle:
  assumes "isExportCycle getBindings modules c"
  shows "\<exists>chain. run getBindings modules = Some (Inl (ExportCycleException chain))
           \<and> isExportCycle getBindings modules chain"
proof -
  let ?G = "buildGraph getBindings modules"
  from findCycles_buildGraph_finds[OF assms] obtain cyc cycles where
    f: "findCycles ?G = Some (cyc # cycles)" by blast
  from findCycles_genuine[OF buildGraph_targets_distinct f] have "genuine ?G cyc" by simp
  from genuine_isExportCycle[OF this]
  have "isExportCycle getBindings modules (map (\<lambda>n. unsafeAsModule (nodeTarget n)) cyc)" .
  moreover from f have "run getBindings modules
      = Some (Inl (ExportCycleException (map (\<lambda>n. unsafeAsModule (nodeTarget n)) cyc)))"
    by (simp add: run_def)
  ultimately show ?thesis by blast
qed

lemma run_cycleBindings:
  "run cycleBindings [0, 1, 2] = Some (Inl (ExportCycleException [0, 1, 2]))"
  by code_simp

theorem run_reports_genuine_cycle_witness:
  "isExportCycle cycleBindings [0, 1, 2] [1, 2, 0]
   \<and> run cycleBindings [0, 1, 2] = Some (Inl (ExportCycleException [0, 1, 2]))
   \<and> isExportCycle cycleBindings [0, 1, 2] [0, 1, 2]"
proof -
  have h: "isExportCycle cycleBindings [0, 1, 2] [1, 2, 0]"
    by (simp add: isExportCycle_def cycleBindings_def directExports_def)
  from run_reports_genuine_cycle[OF h] obtain chain where
    r: "run cycleBindings [0, 1, 2] = Some (Inl (ExportCycleException chain))" and
    c: "isExportCycle cycleBindings [0, 1, 2] chain" by blast
  from r have "chain = [0, 1, 2]" unfolding run_cycleBindings by simp
  with c have c': "isExportCycle cycleBindings [0, 1, 2] [0, 1, 2]" by simp
  show ?thesis by (intro conjI) (rule h, rule run_cycleBindings, rule c')
qed



section \<open>The invariant of the topological sort\<close>

text \<open>
  A graph is well formed if its nodes have distinct targets, every edge in a node's
  \<^verbatim>\<open>exports\<close> names that node as exporter and a node of the graph as exportee, and the
  \<^verbatim>\<open>exportedBy\<close> list of a node holds the edges into it, each as often as it is exported.
\<close>

definition wfGraph :: "Node list \<Rightarrow> bool" where
  "wfGraph G =
     (distinct (map nodeTarget G)
      \<and> (\<forall>N \<in> set G. \<forall>e \<in> set (exports N).
            exporter e = nodeTarget N \<and> exportee e \<in> nodeTarget ` set G)
      \<and> (\<forall>Y \<in> set G. \<forall>e \<in> set (exportedBy Y).
            exportee e = nodeTarget Y \<and> (\<exists>N \<in> set G. e \<in> set (exports N)))
      \<and> (\<forall>Y \<in> set G. \<forall>N \<in> set G.
            length (filter (\<lambda>e. exporter e = nodeTarget N) (exportedBy Y))
              = length (filter (\<lambda>e. exportee e = nodeTarget Y) (exports N))))"

lemma filter_exporter_edges:
  "distinct ms \<Longrightarrow>
   filter (\<lambda>e. exporter e = t) (concat (map (edgesOf b) ms))
     = (if t \<in> ResolvedModule ` set ms then edgesOf b (unsafeAsModule t) else [])"
proof (induction ms)
  case Nil
  then show ?case by simp
next
  case (Cons m ms)
  have here: "filter (\<lambda>e. exporter e = t) (edgesOf b m)
                = (if t = ResolvedModule m then edgesOf b m else [])"
    by (auto simp: filter_empty_conv filter_id_conv dest: exporter_edgesOf)
  from Cons have rest: "filter (\<lambda>e. exporter e = t) (concat (map (edgesOf b) ms))
                = (if t \<in> ResolvedModule ` set ms then edgesOf b (unsafeAsModule t) else [])"
    by simp
  from Cons.prems have "m \<notin> set ms" by simp
  with here rest show ?case by auto
qed

lemma wfGraph_buildGraph:
  assumes d: "distinct ms"
  shows "wfGraph (buildGraph b ms)"
proof -
  let ?G = "buildGraph b ms"
  let ?E = "concat (map (edgesOf b) ms)"
  have exp: "exports N = filter (\<lambda>e. exporter e = nodeTarget N) ?E" if "N \<in> set ?G" for N
    using buildGraph_exports[OF that] by (simp add: filter_exporter_edges[OF d])
  have 1: "\<forall>N \<in> set ?G. \<forall>e \<in> set (exports N).
             exporter e = nodeTarget N \<and> exportee e \<in> nodeTarget ` set ?G"
  proof (intro ballI)
    fix N e assume N: "N \<in> set ?G" and e: "e \<in> set (exports N)"
    from e exp[OF N] have ex: "exporter e = nodeTarget N" by auto
    from e buildGraph_exports[OF N] obtain m where m: "m \<in> set ms" "e \<in> set (edgesOf b m)"
      by (auto split: if_splits)
    then have "exportee e \<in> target ` set (directExports b m)"
      using exportee_edgesOf[of b m] by blast
    with m(1) have "exportee e \<in> nodeTarget ` set ?G"
      unfolding buildGraph_targets by blast
    with ex show "exporter e = nodeTarget N \<and> exportee e \<in> nodeTarget ` set ?G" by simp
  qed
  have 2: "\<forall>Y \<in> set ?G. \<forall>e \<in> set (exportedBy Y).
             exportee e = nodeTarget Y \<and> (\<exists>N \<in> set ?G. e \<in> set (exports N))"
  proof (intro ballI)
    fix Y e assume Y: "Y \<in> set ?G" and e: "e \<in> set (exportedBy Y)"
    from e buildGraph_exportedBy[OF Y] have ee: "exportee e = nodeTarget Y" and "e \<in> set ?E"
      by auto
    then have "e \<in> (\<Union>m\<in>set ms. set (edgesOf b m))" by auto
    then have "e \<in> (\<Union>M\<in>set ?G. set (exports M))" by (simp only: buildGraph_edges_set)
    with ee show "exportee e = nodeTarget Y \<and> (\<exists>N \<in> set ?G. e \<in> set (exports N))" by blast
  qed
  have 3: "\<forall>Y \<in> set ?G. \<forall>N \<in> set ?G.
             length (filter (\<lambda>e. exporter e = nodeTarget N) (exportedBy Y))
               = length (filter (\<lambda>e. exportee e = nodeTarget Y) (exports N))"
  proof (intro ballI)
    fix Y N assume Y: "Y \<in> set ?G" and N: "N \<in> set ?G"
    have "filter (\<lambda>e. exporter e = nodeTarget N) (exportedBy Y)
            = rev (filter (\<lambda>e. exportee e = nodeTarget Y) (filter (\<lambda>e. exporter e = nodeTarget N) ?E))"
      unfolding buildGraph_exportedBy[OF Y] by (simp add: rev_filter[symmetric] conj_commute)
    then show "length (filter (\<lambda>e. exporter e = nodeTarget N) (exportedBy Y))
                 = length (filter (\<lambda>e. exportee e = nodeTarget Y) (exports N))"
      unfolding exp[OF N] by simp
  qed
  from buildGraph_targets_distinct[of b ms] 1 2 3 show ?thesis
    unfolding wfGraph_def by blast
qed

lemma wfGraph_reorder:
  "wfGraph G \<Longrightarrow> set G' = set G \<Longrightarrow> distinct (map nodeTarget G') \<Longrightarrow> wfGraph G'"
  by (simp add: wfGraph_def)

text \<open>
  The degree table read as a map from targets, and the number of a node's export edges whose
  exportee is not in the set \<open>D\<close> of sorted targets.
\<close>

definition degMap :: "Degrees \<Rightarrow> ImportTarget \<rightharpoonup> int" where
  "degMap degrees = map_of (map (\<lambda>(n, d). (nodeTarget n, d)) degrees)"

definition pendingDegree :: "ImportTarget set \<Rightarrow> Node \<Rightarrow> int" where
  "pendingDegree D N = int (length (filter (\<lambda>e. exportee e \<notin> D) (exports N)))"

definition decrement :: "ImportTarget \<Rightarrow> Degrees \<Rightarrow> Degrees" where
  "decrement t degrees =
     map (\<lambda>(n', x). if nodeTarget n' = t then (n', x - 1) else (n', x)) degrees"

lemma degMap_decrement:
  "degMap (decrement t degrees) k
     = (if k = t then map_option (\<lambda>x. x - 1) (degMap degrees k) else degMap degrees k)"
  unfolding degMap_def decrement_def by (induction degrees) auto

lemma keys_decrement:
  "map (\<lambda>x. nodeTarget (fst x)) (decrement t degrees) = map (\<lambda>x. nodeTarget (fst x)) degrees"
  unfolding decrement_def by (induction degrees) auto

lemma nodes_decrement: "fst ` set (decrement t degrees) = fst ` set degrees"
  unfolding decrement_def by (induction degrees) auto

lemma find_key_None:
  "find (\<lambda>(n, _). nodeTarget n = t) degrees = None \<Longrightarrow> degMap degrees t = None"
  unfolding degMap_def by (induction degrees) (auto split: if_splits)

lemma find_key_Some:
  "find (\<lambda>(n, _). nodeTarget n = t) degrees = Some (n, d) \<Longrightarrow>
   degMap degrees t = Some d \<and> n \<in> fst ` set degrees \<and> nodeTarget n = t"
  unfolding degMap_def by (induction degrees) (auto split: if_splits)

lemma degMap_removeKey:
  "degMap (removeKey degrees item) k
     = (if k = nodeTarget item then None else degMap degrees k)"
  unfolding degMap_def removeKey_def by (induction degrees) auto

lemma degMap_mem:
  "distinct (map (\<lambda>x. nodeTarget (fst x)) degrees) \<Longrightarrow> (n, d) \<in> set degrees \<Longrightarrow>
   degMap degrees (nodeTarget n) = Some d"
  unfolding degMap_def by (induction degrees) (auto simp: image_iff)


text \<open>
  The state of the sort between two steps: \<open>D\<close> are the targets already taken out of the
  table, \<open>R\<close> the \<^verbatim>\<open>exportedBy\<close> edges of the current item that are still to be visited. The
  entry of a node counts its export edges to targets outside \<open>D\<close> plus the edges of \<open>R\<close> it
  exports; the nodes in the queue have the entry zero.
\<close>

definition degInv :: "Node list \<Rightarrow> ImportTarget set \<Rightarrow> Edge list \<Rightarrow> Degrees \<Rightarrow> bool" where
  "degInv G D R degrees =
     (distinct (map (\<lambda>x. nodeTarget (fst x)) degrees)
      \<and> fst ` set degrees \<subseteq> set G
      \<and> (\<forall>N \<in> set G. degMap degrees (nodeTarget N)
            = (if nodeTarget N \<in> D then None
               else Some (pendingDegree D N
                          + int (length (filter (\<lambda>e. exporter e = nodeTarget N) R))))))"

definition queueInv :: "Node list \<Rightarrow> Degrees \<Rightarrow> Node list \<Rightarrow> bool" where
  "queueInv G degrees q =
     (set q \<subseteq> set G \<and> distinct (map nodeTarget q)
      \<and> (\<forall>n \<in> set q. degMap degrees (nodeTarget n) = Some 0))"

lemma visitEdge_alt:
  "visitEdge (degrees, q) edge =
     (case find (\<lambda>(n, _). nodeTarget n = exporter edge) degrees of
        None \<Rightarrow> Inl (NoSuchElementException ''key not found'')
      | Some (n, d) \<Rightarrow>
          if d - 1 = 0 then Inr (decrement (exporter edge) degrees, q @ [n])
          else Inr (decrement (exporter edge) degrees, q))"
  by (simp add: visitEdge_def decrement_def Let_def split: option.splits)

lemma visitEdge_inv:
  assumes inv: "degInv G D (e # R) degrees" and qi: "queueInv G degrees q"
    and X: "X \<in> set G" "nodeTarget X = exporter e" "exporter e \<notin> D"
  shows "\<exists>degrees' q'. visitEdge (degrees, q) e = Inr (degrees', q')
           \<and> degInv G D R degrees' \<and> queueInv G degrees' q'"
proof -
  let ?t = "exporter e"
  let ?d = "pendingDegree D X + int (length (filter (\<lambda>e'. exporter e' = ?t) (e # R)))"
  from inv X have dm: "degMap degrees ?t = Some ?d"
    by (auto simp: degInv_def)
  have pos: "?d \<ge> 1" by (simp add: pendingDegree_def)
  obtain n d where f: "find (\<lambda>(n, _). nodeTarget n = ?t) degrees = Some (n, d)"
  proof (cases "find (\<lambda>(n, _). nodeTarget n = ?t) degrees")
    case None
    from find_key_None[OF None] dm show ?thesis by simp
  next
    case (Some a)
    with that show ?thesis by (cases a) auto
  qed
  from find_key_Some[OF f] dm have d: "d = ?d" and n: "n \<in> fst ` set degrees" "nodeTarget n = ?t"
    by simp_all
  let ?degs = "decrement ?t degrees"
  have inv': "degInv G D R ?degs"
    unfolding degInv_def
  proof (intro conjI ballI)
    show "distinct (map (\<lambda>x. nodeTarget (fst x)) ?degs)"
      using inv by (simp add: keys_decrement degInv_def)
    show "fst ` set ?degs \<subseteq> set G"
      using inv by (simp add: nodes_decrement degInv_def)
    fix N assume N: "N \<in> set G"
    from inv N have old: "degMap degrees (nodeTarget N)
        = (if nodeTarget N \<in> D then None
           else Some (pendingDegree D N
                      + int (length (filter (\<lambda>e'. exporter e' = nodeTarget N) (e # R)))))"
      by (simp add: degInv_def)
    show "degMap ?degs (nodeTarget N)
        = (if nodeTarget N \<in> D then None
           else Some (pendingDegree D N
                      + int (length (filter (\<lambda>e'. exporter e' = nodeTarget N) R))))"
      using old by (auto simp: degMap_decrement)
  qed
  have others: "degMap ?degs (nodeTarget m) = Some 0 \<and> nodeTarget m \<noteq> ?t" if "m \<in> set q" for m
  proof -
    from qi that have z: "degMap degrees (nodeTarget m) = Some 0" by (simp add: queueInv_def)
    with dm pos have "nodeTarget m \<noteq> ?t" by auto
    with z show ?thesis by (simp add: degMap_decrement)
  qed
  show ?thesis
  proof (cases "d - 1 = 0")
    case True
    have "queueInv G ?degs (q @ [n])"
      unfolding queueInv_def
    proof (intro conjI ballI)
      from n(1) inv have "n \<in> set G" by (auto simp: degInv_def)
      with qi show "set (q @ [n]) \<subseteq> set G" by (simp add: queueInv_def)
      have "nodeTarget n \<notin> nodeTarget ` set q"
      proof
        assume "nodeTarget n \<in> nodeTarget ` set q"
        then obtain m where "m \<in> set q" "nodeTarget m = nodeTarget n" by auto
        with others[of m] n(2) show False by simp
      qed
      with qi show "distinct (map nodeTarget (q @ [n]))" by (simp add: queueInv_def)
      fix m assume "m \<in> set (q @ [n])"
      then consider "m \<in> set q" | "m = n" by auto
      then show "degMap ?degs (nodeTarget m) = Some 0"
      proof cases
        case 1
        with others show ?thesis by simp
      next
        case 2
        with n(2) dm d True show ?thesis by (simp add: degMap_decrement)
      qed
    qed
    with f True inv' show ?thesis by (simp add: visitEdge_alt)
  next
    case False
    have "queueInv G ?degs q"
      using qi others by (simp add: queueInv_def)
    with f False inv' show ?thesis by (simp add: visitEdge_alt)
  qed
qed

lemma visitEdges_inv:
  "degInv G D es degrees \<Longrightarrow> queueInv G degrees q \<Longrightarrow>
   \<forall>e \<in> set es. \<exists>X \<in> set G. nodeTarget X = exporter e \<and> exporter e \<notin> D \<Longrightarrow>
   \<exists>degrees' q'. visitEdges (degrees, q) es = Inr (degrees', q')
      \<and> degInv G D [] degrees' \<and> queueInv G degrees' q'"
proof (induction es arbitrary: degrees q)
  case Nil
  then show ?case by simp
next
  case (Cons e es)
  from Cons.prems(3) obtain X where X: "X \<in> set G" "nodeTarget X = exporter e" "exporter e \<notin> D"
    by auto
  from visitEdge_inv[OF Cons.prems(1,2) X] obtain d1 q1 where
    1: "visitEdge (degrees, q) e = Inr (d1, q1)" "degInv G D es d1" "queueInv G d1 q1"
    by blast
  from Cons.prems(3) have "\<forall>e \<in> set es. \<exists>X \<in> set G. nodeTarget X = exporter e \<and> exporter e \<notin> D"
    by simp
  from Cons.IH[OF 1(2,3) this] 1(1) show ?case by simp
qed


definition mainInv :: "Node list \<Rightarrow> Degrees \<Rightarrow> Node list \<Rightarrow> Node list \<Rightarrow> bool" where
  "mainInv G degrees q result =
     (degInv G (nodeTarget ` set result) [] degrees
      \<and> queueInv G degrees q
      \<and> set result \<subseteq> set G
      \<and> distinct (map nodeTarget result)
      \<and> exporteesFirst G (map nodeTarget result))"

lemma wfGraph_same_node:
  assumes "wfGraph G" "N \<in> set G" "M \<in> set G" "nodeTarget N = nodeTarget M"
  shows "N = M"
proof -
  from assms(1) have d: "distinct (map nodeTarget G)" by (simp add: wfGraph_def)
  from deref_distinct[OF d assms(2)] deref_distinct[OF d assms(3)] assms(4)
  show ?thesis by metis
qed

lemma wfGraph_successors:
  assumes "wfGraph G" "N \<in> set G"
  shows "successors G (nodeTarget N) = map exportee (exports N)"
proof -
  from assms(1) have d: "distinct (map nodeTarget G)" by (simp add: wfGraph_def)
  from deref_distinct[OF d assms(2)] show ?thesis by (simp add: successors_def)
qed

lemma length_filter_insert:
  "Y \<notin> D \<Longrightarrow>
   length (filter (\<lambda>e. f e \<notin> D) xs)
     = length (filter (\<lambda>e. f e \<notin> insert Y D) xs) + length (filter (\<lambda>e. f e = Y) xs)"
  by (induction xs) auto

lemma pendingDegree_insert:
  assumes "Y \<notin> D"
  shows "pendingDegree D N
           = pendingDegree (insert Y D) N
             + int (length (filter (\<lambda>e. exportee e = Y) (exports N)))"
  unfolding pendingDegree_def using length_filter_insert[OF assms, of exportee "exports N"]
  by simp

lemma pendingDegree_zero:
  "pendingDegree D N = 0 \<Longrightarrow> exportee ` set (exports N) \<subseteq> D"
  by (auto simp: pendingDegree_def filter_empty_conv)

lemma drain_step:
  assumes wf: "wfGraph G" and inv: "mainInv G degrees (item # q) result"
  shows "\<exists>degrees' q'. visitEdges (removeKey degrees item, q) (exportedBy item) = Inr (degrees', q')
           \<and> mainInv G degrees' q' (item # result)"
proof -
  let ?D = "nodeTarget ` set result"
  let ?Y = "nodeTarget item"
  let ?D' = "nodeTarget ` set (item # result)"
  from inv have di: "degInv G ?D [] degrees" and qi: "queueInv G degrees (item # q)"
    and rG: "set result \<subseteq> set G" and rd: "distinct (map nodeTarget result)"
    and ef: "exporteesFirst G (map nodeTarget result)"
    by (simp_all add: mainInv_def)
  from qi have item: "item \<in> set G" and zero: "degMap degrees ?Y = Some 0"
    and qG: "set q \<subseteq> set G" and qd: "distinct (map nodeTarget q)"
    and Yq: "?Y \<notin> nodeTarget ` set q"
    and qz: "\<forall>n \<in> set q. degMap degrees (nodeTarget n) = Some 0"
    by (simp_all add: queueInv_def)
  from di item have "degMap degrees ?Y
      = (if ?Y \<in> ?D then None else Some (pendingDegree ?D item + 0))"
    by (simp add: degInv_def)
  with zero have YD: "?Y \<notin> ?D" and p0: "pendingDegree ?D item = 0"
    by (auto split: if_splits)
  from pendingDegree_zero[OF p0] have itemExp: "exportee ` set (exports item) \<subseteq> ?D" .
  have D': "?D' = insert ?Y ?D" by simp
  have di': "degInv G ?D' (exportedBy item) (removeKey degrees item)"
    unfolding degInv_def
  proof (intro conjI ballI)
    from di show "distinct (map (\<lambda>x. nodeTarget (fst x)) (removeKey degrees item))"
      unfolding removeKey_def degInv_def by (simp add: distinct_map_filter)
    from di show "fst ` set (removeKey degrees item) \<subseteq> set G"
      unfolding removeKey_def degInv_def by auto
    fix N assume N: "N \<in> set G"
    from di N have old: "degMap degrees (nodeTarget N)
        = (if nodeTarget N \<in> ?D then None else Some (pendingDegree ?D N))"
      by (simp add: degInv_def)
    from wf item N have cnt: "length (filter (\<lambda>e. exporter e = nodeTarget N) (exportedBy item))
        = length (filter (\<lambda>e. exportee e = ?Y) (exports N))"
      by (simp add: wfGraph_def)
    show "degMap (removeKey degrees item) (nodeTarget N)
        = (if nodeTarget N \<in> ?D' then None
           else Some (pendingDegree ?D' N
                      + int (length (filter (\<lambda>e. exporter e = nodeTarget N) (exportedBy item)))))"
    proof (cases "nodeTarget N \<in> ?D'")
      case True
      with old show ?thesis unfolding D' by (auto simp: degMap_removeKey)
    next
      case False
      then have ne: "nodeTarget N \<noteq> ?Y" and nD: "nodeTarget N \<notin> ?D" unfolding D' by auto
      from pendingDegree_insert[OF YD, of N] cnt
      have "pendingDegree ?D N = pendingDegree ?D' N
              + int (length (filter (\<lambda>e. exporter e = nodeTarget N) (exportedBy item)))"
        unfolding D' by simp
      with False ne nD old show ?thesis by (simp add: degMap_removeKey)
    qed
  qed
  have qi': "queueInv G (removeKey degrees item) q"
    unfolding queueInv_def
  proof (intro conjI ballI)
    show "set q \<subseteq> set G" by (rule qG)
    show "distinct (map nodeTarget q)" by (rule qd)
    fix n assume n: "n \<in> set q"
    with Yq have "nodeTarget n \<noteq> ?Y" by (metis imageI)
    with qz n show "degMap (removeKey degrees item) (nodeTarget n) = Some 0"
      by (simp add: degMap_removeKey)
  qed
  have edges: "\<forall>e \<in> set (exportedBy item). \<exists>X \<in> set G. nodeTarget X = exporter e \<and> exporter e \<notin> ?D'"
  proof
    fix e assume e: "e \<in> set (exportedBy item)"
    with wf item obtain X where ee: "exportee e = ?Y" and X: "X \<in> set G" "e \<in> set (exports X)"
      unfolding wfGraph_def by blast
    from wf X have ex: "exporter e = nodeTarget X" unfolding wfGraph_def by blast
    have "nodeTarget X \<notin> ?D'"
    proof
      assume "nodeTarget X \<in> ?D'"
      then consider "nodeTarget X = ?Y" | "nodeTarget X \<in> ?D" unfolding D' by auto
      then show False
      proof cases
        case 1
        from wfGraph_same_node[OF wf X(1) item 1] X(2) have "e \<in> set (exports item)" by simp
        with itemExp ee YD show False by (metis imageI subsetD)
      next
        case 2
        then have "nodeTarget X \<in> set (map nodeTarget result)" by simp
        have "exportee e \<in> set (successors G (nodeTarget X))"
          using X(2) by (simp add: wfGraph_successors[OF wf X(1)])
        with exporteesFirst_closed[OF ef \<open>nodeTarget X \<in> set (map nodeTarget result)\<close>] ee
        have "?Y \<in> set (map nodeTarget result)" by (metis subsetD)
        with YD show False by simp
      qed
    qed
    with X(1) ex show "\<exists>X \<in> set G. nodeTarget X = exporter e \<and> exporter e \<notin> ?D'" by auto
  qed
  from visitEdges_inv[OF di' qi' edges] obtain degrees' q' where
    v: "visitEdges (removeKey degrees item, q) (exportedBy item) = Inr (degrees', q')"
    and a: "degInv G ?D' [] degrees'" and b: "queueInv G degrees' q'" by blast
  have "set (successors G ?Y) \<subseteq> set (map nodeTarget result)"
    using itemExp by (simp add: wfGraph_successors[OF wf item])
  then have "exporteesFirst G (map nodeTarget (item # result))"
    using ef by simp
  moreover have "distinct (map nodeTarget (item # result))" using rd YD by simp
  moreover have "set (item # result) \<subseteq> set G" using rG item by simp
  ultimately have "mainInv G degrees' q' (item # result)"
    using a b unfolding mainInv_def by blast
  with v show ?thesis by blast
qed

lemma drain_inv:
  assumes wf: "wfGraph G"
  shows "mainInv G degrees q result \<Longrightarrow>
         \<exists>degrees' result'. drain degrees q result = Inr (degrees', result')
            \<and> mainInv G degrees' [] result'"
proof (induction degrees q result rule: drain.induct)
  case (1 degrees result)
  then show ?case by simp
next
  case (2 degrees item q result)
  from drain_step[OF wf "2.prems"] obtain d1 q1 where
    v: "visitEdges (removeKey degrees item, q) (exportedBy item) = Inr (d1, q1)"
    and m: "mainInv G d1 q1 (item # result)" by blast
  from "2.IH"[OF v refl m] v show ?case by simp
qed


lemma find_zero_Some:
  "find (\<lambda>(_, deg). deg = 0) degrees = Some (entry, d) \<Longrightarrow> (entry, 0) \<in> set degrees"
  by (induction degrees) (auto split: if_splits)

lemma topsortLoop_inv:
  assumes wf: "wfGraph G"
  shows "mainInv G degrees [] result \<Longrightarrow>
         (\<exists>r. topsortLoop degrees result = Inr r \<and> mainInv G [] [] r)
         \<or> topsortLoop degrees result = Inl (NoSuchElementException ''None.get'')"
proof (induction degrees result rule: topsortLoop.induct)
  case (1 degrees result)
  show ?case
  proof (cases "degrees = []")
    case True
    with "1.prems" show ?thesis by (subst topsortLoop.simps) simp
  next
    case ne: False
    show ?thesis
    proof (cases "find (\<lambda>(_, deg). deg = 0) degrees")
      case None
      with ne have "topsortLoop degrees result = Inl (NoSuchElementException ''None.get'')"
        by (subst topsortLoop.simps) simp
      then show ?thesis by simp
    next
      case (Some a)
      obtain entry d where a: "a = (entry, d)" by (cases a)
      from find_zero_Some[OF Some[unfolded a]] have mem: "(entry, 0) \<in> set degrees" .
      from "1.prems" have di: "degInv G (nodeTarget ` set result) [] degrees"
        by (simp add: mainInv_def)
      then have "distinct (map (\<lambda>x. nodeTarget (fst x)) degrees)" "fst ` set degrees \<subseteq> set G"
        by (simp_all add: degInv_def)
      with mem degMap_mem[OF this(1) mem] have "queueInv G degrees [entry]"
        by (auto simp: queueInv_def)
      with "1.prems" have "mainInv G degrees [entry] result" by (simp add: mainInv_def)
      from drain_inv[OF wf this] obtain d1 r1 where
        dr: "drain degrees [entry] result = Inr (d1, r1)" and m: "mainInv G d1 [] r1" by blast
      from "1.IH"[OF ne Some[unfolded a] refl dr refl m]
      have "(\<exists>r. topsortLoop d1 r1 = Inr r \<and> mainInv G [] [] r)
            \<or> topsortLoop d1 r1 = Inl (NoSuchElementException ''None.get'')" .
      moreover from ne Some a dr have "topsortLoop degrees result = topsortLoop d1 r1"
        by (subst topsortLoop.simps) simp
      ultimately show ?thesis by simp
    qed
  qed
qed

lemma foldl_setDegree:
  "distinct (map nodeTarget nodes) \<Longrightarrow>
   nodeTarget ` set nodes \<inter> (\<lambda>(n, _). nodeTarget n) ` set acc = {} \<Longrightarrow>
   foldl (\<lambda>degrees node. setDegree degrees node (int (length (exports node)))) acc nodes
     = acc @ map (\<lambda>n. (n, int (length (exports n)))) nodes"
proof (induction nodes arbitrary: acc)
  case Nil
  then show ?case by simp
next
  case (Cons a nodes)
  from Cons.prems(2) have "nodeTarget a \<notin> (\<lambda>(n, _). nodeTarget n) ` set acc" by auto
  then have s: "setDegree acc a (int (length (exports a))) = acc @ [(a, int (length (exports a)))]"
    by (simp add: setDegree_def)
  have "nodeTarget ` set nodes \<inter> (\<lambda>(n, _). nodeTarget n) ` set (acc @ [(a, int (length (exports a)))]) = {}"
    using Cons.prems by auto
  with Cons.IH[of "acc @ [(a, int (length (exports a)))]"] Cons.prems(1) s
  show ?case by simp
qed

lemma initialDegrees_distinct:
  "distinct (map nodeTarget nodes) \<Longrightarrow>
   initialDegrees nodes = map (\<lambda>n. (n, int (length (exports n)))) nodes"
  unfolding initialDegrees_def using foldl_setDegree[of nodes "[]"] by simp

lemma mainInv_initial:
  assumes wf: "wfGraph G"
  shows "mainInv G (initialDegrees G) [] []"
proof -
  from wf have d: "distinct (map nodeTarget G)" by (simp add: wfGraph_def)
  let ?degs = "map (\<lambda>n. (n, int (length (exports n)))) G"
  have keys: "map (\<lambda>x. nodeTarget (fst x)) ?degs = map nodeTarget G" by simp
  have "degInv G {} [] ?degs"
    unfolding degInv_def
  proof (intro conjI ballI)
    show "distinct (map (\<lambda>x. nodeTarget (fst x)) ?degs)" unfolding keys by (rule d)
    show "fst ` set ?degs \<subseteq> set G" by auto
    fix N assume N: "N \<in> set G"
    then have "(N, int (length (exports N))) \<in> set ?degs" by auto
    have dk: "distinct (map (\<lambda>x. nodeTarget (fst x)) ?degs)" unfolding keys by (rule d)
    from degMap_mem[OF dk \<open>(N, int (length (exports N))) \<in> set ?degs\<close>]
    have "degMap ?degs (nodeTarget N) = Some (int (length (exports N)))" .
    then show "degMap ?degs (nodeTarget N)
        = (if nodeTarget N \<in> {} then None
           else Some (pendingDegree {} N
                      + int (length (filter (\<lambda>e. exporter e = nodeTarget N) []))))"
      by (simp add: pendingDegree_def)
  qed
  then show ?thesis
    by (simp add: mainInv_def queueInv_def initialDegrees_distinct[OF d])
qed

lemma topsort_result:
  assumes wf: "wfGraph G"
  shows "(\<exists>tops. topsort G = Inr tops \<and> set tops = set G
            \<and> distinct (map nodeTarget tops)
            \<and> exporteesFirst G (map nodeTarget (rev tops)))
         \<or> topsort G = Inl (NoSuchElementException ''None.get'')"
proof -
  from topsortLoop_inv[OF wf mainInv_initial[OF wf]]
  consider r where "topsortLoop (initialDegrees G) [] = Inr r" "mainInv G [] [] r"
    | "topsortLoop (initialDegrees G) [] = Inl (NoSuchElementException ''None.get'')"
    by blast
  then show ?thesis
  proof cases
    case 1
    from 1(2) have sub: "set r \<subseteq> set G" and dr: "distinct (map nodeTarget r)"
      and ef: "exporteesFirst G (map nodeTarget r)"
      and all: "\<forall>N \<in> set G. nodeTarget N \<in> nodeTarget ` set r"
      by (auto simp: mainInv_def degInv_def degMap_def split: if_splits)
    have "set G \<subseteq> set r"
    proof
      fix N assume N: "N \<in> set G"
      with all obtain n where n: "n \<in> set r" "nodeTarget N = nodeTarget n" by auto
      with sub have "n \<in> set G" by auto
      from wfGraph_same_node[OF wf N this n(2)] n(1) show "N \<in> set r" by simp
    qed
    with sub have "set (rev r) = set G" by auto
    moreover from dr have "distinct (map nodeTarget (rev r))" by (simp add: rev_map[symmetric])
    moreover from 1(1) have "topsort G = Inr (rev r)" by (simp add: topsort_def)
    ultimately show ?thesis using ef by simp
  next
    case 2
    then show ?thesis by (simp add: topsort_def)
  qed
qed

text \<open>
  A list of nodes, oldest first, in which every node comes after all the nodes it exports.
\<close>

fun exporteesBefore :: "ImportTarget list \<Rightarrow> Node list \<Rightarrow> bool" where
  "exporteesBefore seen [] = True"
| "exporteesBefore seen (n # ns) =
     (exportee ` set (exports n) \<subseteq> set seen \<and> exporteesBefore (nodeTarget n # seen) ns)"

lemma exporteesFirst_append: "exporteesFirst G (xs @ ys) \<Longrightarrow> exporteesFirst G ys"
  by (induction xs) auto

lemma exporteesFirst_exporteesBefore:
  assumes wf: "wfGraph G"
  shows "set ns \<subseteq> set G \<Longrightarrow> exporteesFirst G (rev (map nodeTarget ns) @ seen) \<Longrightarrow>
         exporteesBefore seen ns"
proof (induction ns arbitrary: seen)
  case Nil
  then show ?case by simp
next
  case (Cons n ns)
  from Cons.prems(2) have e: "exporteesFirst G (rev (map nodeTarget ns) @ (nodeTarget n # seen))"
    by simp
  from exporteesFirst_append[OF e] have "set (successors G (nodeTarget n)) \<subseteq> set seen" by simp
  moreover from Cons.prems(1) have "n \<in> set G" by simp
  ultimately have "exportee ` set (exports n) \<subseteq> set seen"
    by (simp add: wfGraph_successors[OF wf])
  moreover from Cons.IH[OF _ e] Cons.prems(1) have "exporteesBefore (nodeTarget n # seen) ns"
    by simp
  ultimately show ?case by simp
qed


section \<open>The claims about run and runSort\<close>

text \<open>
  Claim C10. On a set of modules whose export declarations contain a cycle, \<^verbatim>\<open>runSort\<close> does
  not return a list: the search for a node of degree zero finds none while nodes remain,
  and the \<^verbatim>\<open>.get\<close> on the empty search ends the call with \<^verbatim>\<open>NoSuchElementException\<close>.
\<close>

theorem runSort_fails_on_cycle:
  assumes "distinct modules" and "isExportCycle getBindings modules c"
  shows "runSort getBindings modules = Inl (NoSuchElementException ''None.get'')"
proof -
  let ?G = "buildGraph getBindings modules"
  have wf: "wfGraph ?G" using wfGraph_buildGraph[OF assms(1)] .
  have "topsort ?G = Inl (NoSuchElementException ''None.get'')"
  proof (rule disjE[OF topsort_result[OF wf]])
    assume "\<exists>tops. topsort ?G = Inr tops \<and> set tops = set ?G
              \<and> distinct (map nodeTarget tops)
              \<and> exporteesFirst ?G (map nodeTarget (rev tops))"
    then obtain tops where s: "set tops = set ?G"
      and ef: "exporteesFirst ?G (map nodeTarget (rev tops))" by blast
    from isExportCycle_walk(2)[OF assms(2)] s
    have "ResolvedModule (hd c) \<in> set (map nodeTarget (rev tops))" by simp
    from exporteesFirst_no_return[OF ef isExportCycle_walk(1)[OF assms(2)] _ this]
    show ?thesis by simp
  qed
  then show ?thesis by (simp add: runSort_def)
qed

theorem runSort_fails_on_cycle_witness:
  "distinct [0, 1, 2 :: Module] \<and> isExportCycle cycleBindings [0, 1, 2] [0, 1, 2]
   \<and> runSort cycleBindings [0, 1, 2] = Inl (NoSuchElementException ''None.get'')"
proof -
  have d: "distinct [0, 1, 2 :: Module]" by simp
  have h: "isExportCycle cycleBindings [0, 1, 2] [0, 1, 2]"
    by (simp add: isExportCycle_def cycleBindings_def directExports_def)
  show ?thesis by (intro conjI) (rule d, rule h, rule runSort_fails_on_cycle[OF d h])
qed

text \<open>
  Keeping the last occurrence of every element, as the comment in \<^verbatim>\<open>run\<close> words it: an
  element stays where it is unless it occurs again later.
\<close>

fun keepLast :: "'a list \<Rightarrow> 'a list" where
  "keepLast [] = []"
| "keepLast (x # xs) = (if x \<in> set xs then keepLast xs else x # keepLast xs)"

lemma keepLast_remdups: "keepLast xs = remdups xs"
  by (induction xs) auto

lemma remdups_snoc: "remdups (ys @ [x]) = filter (\<lambda>y. y \<noteq> x) (remdups ys) @ [x]"
  by (induction ys) auto

lemma distinctFrom_remdups:
  "distinctFrom seen xs = rev (remdups (rev (filter (\<lambda>x. x \<notin> set seen) xs)))"
proof (induction seen xs rule: distinctFrom.induct)
  case (1 seen)
  then show ?case by simp
next
  case (2 seen x xs)
  show ?case
  proof (cases "x \<in> set seen")
    case True
    with 2 show ?thesis by simp
  next
    case False
    let ?F = "filter (\<lambda>y. y \<notin> set seen) xs"
    have "filter (\<lambda>y. y \<noteq> x) (remdups (rev ?F))
            = remdups (rev (filter (\<lambda>y. y \<notin> set (x # seen)) xs))"
      by (simp add: remdups_filter[symmetric] rev_filter[symmetric] conj_commute)
    with False 2(2) show ?thesis by (simp add: remdups_snoc)
  qed
qed

lemma lastOccurrences_keepLast:
  "lastOccurrences tops = keepLast (map (\<lambda>n. unsafeAsModule (nodeTarget n)) tops)"
  by (simp add: lastOccurrences_def distinctScala_def distinctFrom_remdups keepLast_remdups)

text \<open>
  Claim C9 fails on the code in its last part: keeping the last occurrence of a module moves
  a module that is reached through an entity node sorted late behind a module that exports
  it. Module 1 exports module 0 and module 2 exports the type \<open>U\<close> of module 0; the sorted
  nodes have the modules 0, 1, 0, 2, with module 0 before module 1, and the list that \<^verbatim>\<open>run\<close>
  returns has module 1 before module 0.
\<close>

theorem run_order_counterexample:
  "map_sum id (map (\<lambda>n. unsafeAsModule (nodeTarget n)))
      (topsort (buildGraph exampleBindings [0, 1, 2])) = Inr [0, 1, 0, 2]
   \<and> run exampleBindings [0, 1, 2] = Some (Inr [1, 0, 2])
   \<and> ResolvedModule 0 \<in> target ` set (directExports exampleBindings 1)"
  by code_simp

section \<open>run returns on a set of modules without export cycle\<close>

lemma findCycles_empty_order:
  assumes d: "distinct (map nodeTarget nodes)" and f: "findCycles nodes = Some []"
  shows "\<exists>V. exporteesFirst nodes V \<and> nodeTarget ` set nodes \<subseteq> set V"
proof -
  from f obtain rs V' P' where
    g: "goChildren nodes (length nodes + 2) nodes ([], [], []) = Some (rs, (V', P', []))"
    by (auto simp: findCycles_def split: option.splits prod.splits)
  have n: "\<forall>c \<in> set nodes. isNode nodes c"
    using deref_distinct[OF d] by (simp add: isNode_def)
  from goChildren_sound[OF n g] have "\<forall>x \<in> set rs. \<exists>c \<in> set nodes. resultOk nodes [] c x"
    by simp
  then have "rs = []" by (cases rs) (auto simp: resultOk_def)
  from goChildren_clean[OF n _ g[unfolded this]] show ?thesis by auto
qed

lemma findCycles_acyclic:
  assumes "\<forall>c. \<not> isExportCycle b ms c"
  shows "findCycles (buildGraph b ms) = Some []"
proof -
  from findCycles_returns[of "buildGraph b ms"] obtain found where
    f: "findCycles (buildGraph b ms) = Some found" by auto
  have "found = []"
  proof (cases found)
    case Nil
    then show ?thesis .
  next
    case (Cons cyc rest)
    with findCycles_genuine[OF buildGraph_targets_distinct f] have "genuine (buildGraph b ms) cyc"
      by simp
    from genuine_isExportCycle[OF this] assms show ?thesis by blast
  qed
  with f show ?thesis by simp
qed

text \<open>In a list that has its exportees first, every non-empty set of its targets has a
  target that exports nothing of the set.\<close>

lemma exporteesFirst_sink:
  "exporteesFirst G V \<Longrightarrow> S \<subseteq> set V \<Longrightarrow> S \<noteq> {} \<Longrightarrow>
   \<exists>s \<in> S. set (successors G s) \<inter> S = {}"
proof (induction V arbitrary: S)
  case Nil
  then show ?case by simp
next
  case (Cons v vs)
  from Cons.prems(1) have ef: "exporteesFirst G vs" and sv: "set (successors G v) \<subseteq> set vs"
    by simp_all
  show ?case
  proof (cases "S \<inter> set vs = {}")
    case True
    with Cons.prems(2,3) have S: "S = {v}" by auto
    with True have "v \<notin> set vs" by auto
    with sv S show ?thesis by auto
  next
    case False
    from Cons.IH[OF ef _ False] obtain s where
      s: "s \<in> S" "s \<in> set vs" "set (successors G s) \<inter> (S \<inter> set vs) = {}" by auto
    from exporteesFirst_closed[OF ef s(2)] s(3) have "set (successors G s) \<inter> S = {}" by auto
    with s(1) show ?thesis by blast
  qed
qed

lemma find_zero_None:
  "find (\<lambda>(_, deg). deg = 0) degrees = None \<Longrightarrow> (n, d) \<in> set degrees \<Longrightarrow> d \<noteq> 0"
  by (auto simp: find_None_iff)

lemma degMap_Some_key: "degMap degrees t = Some d \<Longrightarrow> t \<in> (\<lambda>x. nodeTarget (fst x)) ` set degrees"
proof -
  assume "degMap degrees t = Some d"
  then have "(t, d) \<in> set (map (\<lambda>(n, d). (nodeTarget n, d)) degrees)"
    unfolding degMap_def by (rule map_of_SomeD)
  then obtain n where "(n, d) \<in> set degrees" "t = nodeTarget n" by auto
  then show ?thesis by force
qed

lemma topsort_not_stuck:
  assumes wf: "wfGraph G" and inv: "mainInv G degrees [] result" and ne: "degrees \<noteq> []"
    and ef: "exporteesFirst G V" and all: "nodeTarget ` set G \<subseteq> set V"
  shows "find (\<lambda>(_, deg). deg = 0) degrees \<noteq> None"
proof
  assume none: "find (\<lambda>(_, deg). deg = 0) degrees = None"
  let ?D = "nodeTarget ` set result"
  let ?S = "(\<lambda>x. nodeTarget (fst x)) ` set degrees"
  from inv have di: "degInv G ?D [] degrees" by (simp add: mainInv_def)
  then have dk: "distinct (map (\<lambda>x. nodeTarget (fst x)) degrees)" and sub: "fst ` set degrees \<subseteq> set G"
    and dm: "\<forall>N \<in> set G. degMap degrees (nodeTarget N)
               = (if nodeTarget N \<in> ?D then None else Some (pendingDegree ?D N))"
    by (simp_all add: degInv_def)
  have SV: "?S \<subseteq> set V"
  proof
    fix t assume "t \<in> ?S"
    then obtain x where x: "x \<in> set degrees" "t = nodeTarget (fst x)" by blast
    from x(1) sub have "fst x \<in> set G" by blast
    with all x(2) show "t \<in> set V" by blast
  qed
  have Sne: "?S \<noteq> {}" using ne by simp
  from exporteesFirst_sink[OF ef SV Sne] obtain s where
    s: "s \<in> ?S" "set (successors G s) \<inter> ?S = {}" by blast
  from s(1) obtain x where x: "x \<in> set degrees" "s = nodeTarget (fst x)" by blast
  obtain n d where xnd: "x = (n, d)" by (cases x)
  with x have nd: "(n, d) \<in> set degrees" "s = nodeTarget n" by simp_all
  from nd(1) sub have nG: "n \<in> set G" by force
  have d: "d = pendingDegree ?D n"
  proof (cases "nodeTarget n \<in> ?D")
    case True
    with dm[rule_format, OF nG] degMap_mem[OF dk nd(1)] show ?thesis by simp
  next
    case False
    with dm[rule_format, OF nG] degMap_mem[OF dk nd(1)] show ?thesis by simp
  qed
  from find_zero_None[OF none nd(1)] d have "filter (\<lambda>e. exportee e \<notin> ?D) (exports n) \<noteq> []"
    by (simp add: pendingDegree_def)
  then obtain e where e: "e \<in> set (exports n)" "exportee e \<notin> ?D"
    by (auto simp: filter_empty_conv)
  from wf nG e(1) obtain N where N: "N \<in> set G" "exportee e = nodeTarget N"
    unfolding wfGraph_def by blast
  with dm[rule_format, OF N(1)] e(2)
  have "degMap degrees (exportee e) = Some (pendingDegree ?D N)" by simp
  from degMap_Some_key[OF this] have "exportee e \<in> ?S" .
  moreover from e(1) have "exportee e \<in> set (successors G s)"
    by (simp add: nd(2) wfGraph_successors[OF wf nG])
  ultimately show False using s(2) by blast
qed

lemma topsortLoop_returns:
  assumes wf: "wfGraph G" and ef: "exporteesFirst G V" and all: "nodeTarget ` set G \<subseteq> set V"
  shows "mainInv G degrees [] result \<Longrightarrow> \<exists>r. topsortLoop degrees result = Inr r"
proof (induction degrees result rule: topsortLoop.induct)
  case (1 degrees result)
  show ?case
  proof (cases "degrees = []")
    case True
    then show ?thesis by (subst topsortLoop.simps) simp
  next
    case ne: False
    from topsort_not_stuck[OF wf "1.prems" ne ef all] obtain a where
      Some: "find (\<lambda>(_, deg). deg = 0) degrees = Some a" by auto
    obtain entry d where a: "a = (entry, d)" by (cases a)
    from find_zero_Some[OF Some[unfolded a]] have mem: "(entry, 0) \<in> set degrees" .
    from "1.prems" have di: "degInv G (nodeTarget ` set result) [] degrees"
      by (simp add: mainInv_def)
    then have "distinct (map (\<lambda>x. nodeTarget (fst x)) degrees)" "fst ` set degrees \<subseteq> set G"
      by (simp_all add: degInv_def)
    with mem degMap_mem[OF this(1) mem] have "queueInv G degrees [entry]"
      by (auto simp: queueInv_def)
    with "1.prems" have "mainInv G degrees [entry] result" by (simp add: mainInv_def)
    from drain_inv[OF wf this] obtain d1 r1 where
      dr: "drain degrees [entry] result = Inr (d1, r1)" and m: "mainInv G d1 [] r1" by blast
    from "1.IH"[OF ne Some[unfolded a] refl dr refl m] obtain r where "topsortLoop d1 r1 = Inr r"
      by blast
    moreover from ne Some a dr have "topsortLoop degrees result = topsortLoop d1 r1"
      by (subst topsortLoop.simps) simp
    ultimately show ?thesis by simp
  qed
qed

lemma topsort_returns:
  assumes wf: "wfGraph G" and ef: "exporteesFirst G V" and all: "nodeTarget ` set G \<subseteq> set V"
  shows "\<exists>tops. topsort G = Inr tops"
  using topsortLoop_returns[OF wf ef all mainInv_initial[OF wf]]
  by (auto simp: topsort_def)

lemma transitivelyExported_succeeds:
  "\<forall>x \<in> set xs. resolved (target x) \<noteq> None \<Longrightarrow> \<exists>ts. transitivelyExported resolved xs = Inr ts"
proof (induction resolved xs rule: transitivelyExported.induct)
  case (1 resolved)
  then show ?case by simp
next
  case (2 resolved module uu syms rest)
  from "2.prems" obtain parent where p: "resolved module = Some parent" by auto
  from "2.IH"[OF p] "2.prems" obtain more where "transitivelyExported resolved rest = Inr more"
    by auto
  with p show ?case by simp
qed

lemma resolveNodes_succeeds:
  "exporteesBefore seen ns \<Longrightarrow> set seen \<subseteq> dom resolved \<Longrightarrow>
   \<exists>resolved'. resolveNodes resolved ns = Inr resolved'"
proof (induction ns arbitrary: seen resolved)
  case Nil
  then show ?case by simp
next
  case (Cons n ns)
  from Cons.prems have sub: "exportee ` set (exports n) \<subseteq> set seen"
    and eb: "exporteesBefore (nodeTarget n # seen) ns" by simp_all
  have "\<forall>x \<in> set (explicitlyExported n). resolved (target x) \<noteq> None"
    using sub Cons.prems(2) by (auto simp: explicitlyExported_def)
  from transitivelyExported_succeeds[OF this] obtain ts where
    ts: "transitivelyExported resolved (explicitlyExported n) = Inr ts" by blast
  let ?r = "resolved(nodeTarget n \<mapsto> unified (explicitlyExported n @ ts))"
  have "set (nodeTarget n # seen) \<subseteq> dom ?r" using Cons.prems(2) by auto
  from Cons.IH[OF eb this] obtain resolved' where "resolveNodes ?r ns = Inr resolved'" by blast
  moreover from ts have "resolveNode resolved n = Inr ?r" by (simp add: resolveNode_def)
  ultimately show ?case by simp
qed

lemma storeFails_set: "set ns = set ms \<Longrightarrow> storeFails b ns = storeFails b ms"
  by (simp add: storeFails_def)


lemma run_acyclic_returns:
  assumes d: "distinct modules"
    and acyclic: "\<forall>c. \<not> isExportCycle getBindings modules c"
    and store: "\<not> storeFails getBindings (buildGraph getBindings modules)"
  shows "\<exists>result. run getBindings modules = Some (Inr result)"
proof -
  let ?G = "buildGraph getBindings modules"
  have wf: "wfGraph ?G" using wfGraph_buildGraph[OF d] .
  have f: "findCycles ?G = Some []" using findCycles_acyclic[OF acyclic] .
  from findCycles_empty_order[OF buildGraph_targets_distinct f] obtain V where
    V: "exporteesFirst ?G V" "nodeTarget ` set ?G \<subseteq> set V" by blast
  from topsort_returns[OF wf V] obtain tops where t: "topsort ?G = Inr tops" by blast
  from topsort_result[OF wf] t have s: "set tops = set ?G"
    and ef: "exporteesFirst ?G (map nodeTarget (rev tops))" by auto
  from ef have "exporteesFirst ?G (rev (map nodeTarget tops) @ [])" by (simp add: rev_map)
  from exporteesFirst_exporteesBefore[OF wf _ this] s have eb: "exporteesBefore [] tops" by simp
  from resolveNodes_succeeds[OF eb, of Map.empty] obtain resolved where
    r: "resolveNodes Map.empty tops = Inr resolved" by auto
  from store storeFails_set[OF s] have "\<not> storeFails getBindings tops" by simp
  with r have "resolveExports getBindings tops = Inr resolved" by (simp add: resolveExports_def)
  with f t show ?thesis by (simp add: run_def)
qed

text \<open>
  What does hold of the list that \<^verbatim>\<open>run\<close> returns. On a set of modules \<^verbatim>\<open>run\<close> either ends with
  an exception or returns the list of the modules of the sorted nodes with the last
  occurrence of every module kept, so every module of a node occurs in it exactly once; the
  sorted nodes are all the nodes of the graph, each after the nodes it exports. The graph
  algorithm gets through when the export declarations have no cycle and every module among
  the nodes has a bindings map.
\<close>

theorem run_returns_last_occurrences:
  assumes "distinct modules"
  shows "((\<exists>e. run getBindings modules = Some (Inl e))
          \<or> (\<exists>tops. topsort (buildGraph getBindings modules) = Inr tops
                \<and> set tops = set (buildGraph getBindings modules)
                \<and> exporteesBefore [] tops
                \<and> run getBindings modules
                    = Some (Inr (keepLast (map (\<lambda>n. unsafeAsModule (nodeTarget n)) tops)))
                \<and> distinct (keepLast (map (\<lambda>n. unsafeAsModule (nodeTarget n)) tops))
                \<and> set (keepLast (map (\<lambda>n. unsafeAsModule (nodeTarget n)) tops))
                    = (\<lambda>n. unsafeAsModule (nodeTarget n)) ` set tops))
       \<and> ((\<forall>c. \<not> isExportCycle getBindings modules c)
            \<and> \<not> storeFails getBindings (buildGraph getBindings modules)
          \<longrightarrow> (\<exists>result. run getBindings modules = Some (Inr result)))"
proof (intro conjI impI)
  let ?G = "buildGraph getBindings modules"
  let ?f = "\<lambda>n. unsafeAsModule (nodeTarget n)"
  have wf: "wfGraph ?G" using wfGraph_buildGraph[OF assms] .
  from findCycles_returns[of ?G] obtain x where x: "run getBindings modules = Some x"
    by (auto simp: run_def)
  show "(\<exists>e. run getBindings modules = Some (Inl e))
          \<or> (\<exists>tops. topsort ?G = Inr tops \<and> set tops = set ?G \<and> exporteesBefore [] tops
                \<and> run getBindings modules = Some (Inr (keepLast (map ?f tops)))
                \<and> distinct (keepLast (map ?f tops))
                \<and> set (keepLast (map ?f tops)) = ?f ` set tops)"
  proof (cases x)
    case (Inl e)
    with x show ?thesis by blast
  next
    case (Inr result)
    with x have run: "run getBindings modules = Some (Inr result)" by simp
    then obtain tops where t: "topsort ?G = Inr tops" and r: "result = lastOccurrences tops"
      by (auto simp: run_def Let_def split: option.splits if_splits sum.splits)
    from topsort_result[OF wf] t have s: "set tops = set ?G"
      and ef: "exporteesFirst ?G (map nodeTarget (rev tops))" by auto
    from ef have "exporteesFirst ?G (rev (map nodeTarget tops) @ [])" by (simp add: rev_map)
    from exporteesFirst_exporteesBefore[OF wf _ this] s have eb: "exporteesBefore [] tops" by simp
    from r have k: "result = keepLast (map ?f tops)"
      by (simp add: lastOccurrences_keepLast)
    have "distinct (keepLast (map ?f tops))" "set (keepLast (map ?f tops)) = ?f ` set tops"
      by (simp_all add: keepLast_remdups)
    with t s eb k run show ?thesis by blast
  qed
next
  assume "(\<forall>c. \<not> isExportCycle getBindings modules c)
            \<and> \<not> storeFails getBindings (buildGraph getBindings modules)"
  with run_acyclic_returns[OF assms] show "\<exists>result. run getBindings modules = Some (Inr result)"
    by blast
qed

lemma run_exampleBindings: "run exampleBindings [0, 1, 2] = Some (Inr [1, 0, 2])"
  by code_simp

lemma findCycles_exampleBindings: "findCycles (buildGraph exampleBindings [0, 1, 2]) = Some []"
  by code_simp

lemma storeFails_exampleBindings:
  "\<not> storeFails exampleBindings (buildGraph exampleBindings [0, 1, 2])"
  by code_simp

theorem run_returns_last_occurrences_witness:
  "distinct [0, 1, 2 :: Module]
   \<and> \<not> storeFails exampleBindings (buildGraph exampleBindings [0, 1, 2])
   \<and> run exampleBindings [0, 1, 2] = Some (Inr [1, 0, 2])
   \<and> (\<exists>tops. topsort (buildGraph exampleBindings [0, 1, 2]) = Inr tops
           \<and> set tops = set (buildGraph exampleBindings [0, 1, 2])
           \<and> exporteesBefore [] tops
           \<and> [1, 0, 2] = keepLast (map (\<lambda>n. unsafeAsModule (nodeTarget n)) tops)
           \<and> distinct (keepLast (map (\<lambda>n. unsafeAsModule (nodeTarget n)) tops))
           \<and> set (keepLast (map (\<lambda>n. unsafeAsModule (nodeTarget n)) tops))
               = (\<lambda>n. unsafeAsModule (nodeTarget n)) ` set tops)"
proof -
  have d: "distinct [0, 1, 2 :: Module]" by simp
  have acyclic: "\<forall>c. \<not> isExportCycle exampleBindings [0, 1, 2] c"
  proof (intro allI notI)
    fix c assume "isExportCycle exampleBindings [0, 1, 2] c"
    from findCycles_buildGraph_finds[OF this] show False
      unfolding findCycles_exampleBindings by simp
  qed
  note inst = run_returns_last_occurrences[OF d, of exampleBindings]
  from inst acyclic storeFails_exampleBindings
  obtain result where "run exampleBindings [0, 1, 2] = Some (Inr result)" by blast
  with inst obtain tops where
    "topsort (buildGraph exampleBindings [0, 1, 2]) = Inr tops"
    "set tops = set (buildGraph exampleBindings [0, 1, 2])"
    "exporteesBefore [] tops"
    "run exampleBindings [0, 1, 2]
       = Some (Inr (keepLast (map (\<lambda>n. unsafeAsModule (nodeTarget n)) tops)))"
    "distinct (keepLast (map (\<lambda>n. unsafeAsModule (nodeTarget n)) tops))"
    "set (keepLast (map (\<lambda>n. unsafeAsModule (nodeTarget n)) tops))
       = (\<lambda>n. unsafeAsModule (nodeTarget n)) ` set tops"
    by auto
  moreover from this(4) have "[1, 0, 2] = keepLast (map (\<lambda>n. unsafeAsModule (nodeTarget n)) tops)"
    unfolding run_exampleBindings by simp
  ultimately show ?thesis
    using d storeFails_exampleBindings run_exampleBindings by blast
qed

text \<open>
  Claim C1 fails on the code: the same input has no export cycle, module 1 declares an
  export of module 0, and the list that \<^verbatim>\<open>run\<close> returns has module 1 before module 0. With
  the nodes of the same graph listed in the opposite order the sort gives the modules in the
  order 2, 0, 1, in which module 2, which exports the type \<open>U\<close> of module 0, comes before
  module 0: in either order a module precedes a module it exports from.
\<close>

theorem run_not_topological_on_modules:
  "findCycles (buildGraph exampleBindings [0, 1, 2]) = Some []
   \<and> ResolvedModule 0 \<in> target ` set (directExports exampleBindings 1)
   \<and> run exampleBindings [0, 1, 2] = Some (Inr [1, 0, 2])
   \<and> map_sum id lastOccurrences (topsort (rev (buildGraph exampleBindings [0, 1, 2])))
       = Inr [2, 0, 1]
   \<and> ResolvedType 0 ''U'' \<in> target ` set (directExports exampleBindings 2)"
  by code_simp


section \<open>Privacy\<close>

text \<open>
  Modelled from the spec: the privacy enforcer, which is not among the sources (only tests
  of its diagnostics are). By the specification an export declaration that names a private
  module or one of its symbols is reported as a privacy diagnostic at the declaration and
  contributes nothing; the graph algorithm runs on the remaining declarations. The privacy
  flag of the modules is the parameter \<open>isPrivate\<close>.
\<close>

datatype Diagnostic = ExportPrivateModule Module ExportedModule

definition namesPrivate :: "(Module \<Rightarrow> bool) \<Rightarrow> ExportedModule \<Rightarrow> bool" where
  "namesPrivate isPrivate x = isPrivate (unsafeAsModule (target x))"

definition privacyDiagnostics :: "(Module \<Rightarrow> bool) \<Rightarrow> Bindings \<Rightarrow> Module \<Rightarrow> Diagnostic list"
  where
  "privacyDiagnostics isPrivate getBindings m =
     map (ExportPrivateModule m) (filter (namesPrivate isPrivate) (directExports getBindings m))"

definition enforcePrivacy :: "(Module \<Rightarrow> bool) \<Rightarrow> Bindings \<Rightarrow> Bindings" where
  "enforcePrivacy isPrivate getBindings =
     (\<lambda>m. map_option (filter (\<lambda>x. \<not> namesPrivate isPrivate x)) (getBindings m))"

lemma directExports_enforcePrivacy:
  "directExports (enforcePrivacy isPrivate b) m
     = filter (\<lambda>x. \<not> namesPrivate isPrivate x) (directExports b m)"
  by (cases "b m") (simp_all add: directExports_def enforcePrivacy_def)

lemma enforced_edges_public:
  assumes "N \<in> set (buildGraph (enforcePrivacy isPrivate b) ms)" "e \<in> set (exports N)"
  shows "\<not> isPrivate (unsafeAsModule (exportee e))"
proof -
  from assms buildGraph_exports[OF assms(1)] obtain m where
    "e \<in> set (edgesOf (enforcePrivacy isPrivate b) m)" by (auto split: if_splits)
  then have "exportee e \<in> target ` set (directExports (enforcePrivacy isPrivate b) m)"
    using exportee_edgesOf[of "enforcePrivacy isPrivate b" m] by blast
  then show ?thesis
    by (auto simp: directExports_enforcePrivacy namesPrivate_def)
qed

definition publicTable :: "(Module \<Rightarrow> bool) \<Rightarrow> Resolved \<Rightarrow> bool" where
  "publicTable isPrivate resolved =
     (\<forall>t rs. resolved t = Some rs \<longrightarrow>
        (\<forall>r \<in> set rs. \<not> isPrivate (unsafeAsModule (target r))))"

lemma resolveNode_public:
  assumes pt: "publicTable isPrivate resolved"
    and edges: "\<forall>e \<in> set (exports node). \<not> isPrivate (unsafeAsModule (exportee e))"
    and res: "resolveNode resolved node = Inr resolved'"
  shows "publicTable isPrivate resolved'"
proof -
  from res obtain ts where
    ts: "transitivelyExported resolved (explicitlyExported node) = Inr ts" and
    r': "resolved' = resolved(nodeTarget node \<mapsto> unified (explicitlyExported node @ ts))"
    by (auto simp: resolveNode_def split: sum.splits)
  have ex: "\<forall>x \<in> set (explicitlyExported node). \<not> isPrivate (unsafeAsModule (target x))"
    using edges by (auto simp: explicitlyExported_def)
  have tr: "\<forall>x \<in> set ts. \<not> isPrivate (unsafeAsModule (target x))"
  proof
    fix x assume "x \<in> set ts"
    from transitivelyExported_mem[OF ts this] obtain y parent p where
      "resolved (target y) = Some parent" "p \<in> set parent" "target x = target p"
      by auto
    with pt show "\<not> isPrivate (unsafeAsModule (target x))"
      unfolding publicTable_def by metis
  qed
  have "\<forall>r \<in> set (unified (explicitlyExported node @ ts)). \<not> isPrivate (unsafeAsModule (target r))"
  proof
    fix r assume "r \<in> set (unified (explicitlyExported node @ ts))"
    from unified_mem[OF this] obtain x where
      "x \<in> set (explicitlyExported node @ ts)" "target r = target x" by auto
    with ex tr show "\<not> isPrivate (unsafeAsModule (target r))" by auto
  qed
  with pt show ?thesis unfolding r' publicTable_def by auto
qed

lemma resolveNodes_public:
  "publicTable isPrivate resolved \<Longrightarrow>
   \<forall>n \<in> set nodes. \<forall>e \<in> set (exports n). \<not> isPrivate (unsafeAsModule (exportee e)) \<Longrightarrow>
   resolveNodes resolved nodes = Inr resolved' \<Longrightarrow>
   publicTable isPrivate resolved'"
proof (induction nodes arbitrary: resolved)
  case Nil
  then show ?case by simp
next
  case (Cons n nodes)
  from Cons.prems(3) obtain r1 where
    1: "resolveNode resolved n = Inr r1" and 2: "resolveNodes r1 nodes = Inr resolved'"
    by (auto split: sum.splits)
  from Cons.prems(2) have e: "\<forall>e \<in> set (exports n). \<not> isPrivate (unsafeAsModule (exportee e))"
    and rest: "\<forall>n \<in> set nodes. \<forall>e \<in> set (exports n). \<not> isPrivate (unsafeAsModule (exportee e))"
    by simp_all
  from Cons.IH[OF resolveNode_public[OF Cons.prems(1) e 1] rest 2] show ?case .
qed

definition privateBindings :: Bindings where
  "privateBindings = map_of
     [(0, []),
      (1, [ExportedModule (ResolvedModule 0) None [''T''],
           ExportedModule (ResolvedModule 2) None [''V'']]),
      (2, [])]"

definition privateExample :: "Module \<Rightarrow> bool" where
  "privateExample m = (m = 0)"

text \<open>
  Claim C8. With the privacy enforcer in front of the resolution, no record of any module's
  resolved exports has a private module, or an entity of one, as its target; a declaration
  that names a private module or its symbols is dropped from the declarations the pipeline
  works on and is reported as a privacy diagnostic.
\<close>

theorem private_modules_not_exported:
  assumes "distinct modules"
    and "topsort (buildGraph (enforcePrivacy isPrivate getBindings) modules) = Inr tops"
    and "resolveExports (enforcePrivacy isPrivate getBindings) tops = Inr resolved"
  shows "(\<forall>m. \<forall>r \<in> set (resolvedExports resolved m). \<not> isPrivate (unsafeAsModule (target r)))
       \<and> (\<forall>m. \<forall>x \<in> set (directExports getBindings m). namesPrivate isPrivate x \<longrightarrow>
             ExportPrivateModule m x \<in> set (privacyDiagnostics isPrivate getBindings m)
             \<and> x \<notin> set (directExports (enforcePrivacy isPrivate getBindings) m))"
proof (intro conjI allI ballI impI)
  fix m r assume r: "r \<in> set (resolvedExports resolved m)"
  let ?G = "buildGraph (enforcePrivacy isPrivate getBindings) modules"
  from topsort_result[OF wfGraph_buildGraph[OF assms(1)], of "enforcePrivacy isPrivate getBindings"]
    assms(2)
  have s: "set tops = set ?G" by auto
  from assms(3) have rn: "resolveNodes Map.empty tops = Inr resolved"
    by (auto simp: resolveExports_def split: sum.splits if_splits)
  have "\<forall>n \<in> set tops. \<forall>e \<in> set (exports n). \<not> isPrivate (unsafeAsModule (exportee e))"
    using s enforced_edges_public by blast
  from resolveNodes_public[OF _ this rn] have "publicTable isPrivate resolved"
    by (simp add: publicTable_def)
  moreover from r obtain rs where "resolved (ResolvedModule m) = Some rs" "r \<in> set rs"
    by (cases "resolved (ResolvedModule m)") (auto simp: resolvedExports_def)
  ultimately show "\<not> isPrivate (unsafeAsModule (target r))"
    unfolding publicTable_def by blast
next
  fix m x assume "x \<in> set (directExports getBindings m)" "namesPrivate isPrivate x"
  then show "ExportPrivateModule m x \<in> set (privacyDiagnostics isPrivate getBindings m)"
    "x \<notin> set (directExports (enforcePrivacy isPrivate getBindings) m)"
    by (simp_all add: privacyDiagnostics_def directExports_enforcePrivacy)
qed


lemma privateExample_sorted:
  "topsort (buildGraph (enforcePrivacy privateExample privateBindings) [0, 1, 2])
     = Inr [Node (ResolvedModule 0) [] [],
            Node (ResolvedModule 2) [] [Edge (ResolvedModule 1) [''V''] None (ResolvedModule 2)],
            Node (ResolvedModule 1) [Edge (ResolvedModule 1) [''V''] None (ResolvedModule 2)] []]"
  by code_simp

lemma privateExample_resolved:
  "map_sum id (\<lambda>r. map (resolvedExports r) [0, 1, 2])
     (resolveExports (enforcePrivacy privateExample privateBindings)
        [Node (ResolvedModule 0) [] [],
         Node (ResolvedModule 2) [] [Edge (ResolvedModule 1) [''V''] None (ResolvedModule 2)],
         Node (ResolvedModule 1) [Edge (ResolvedModule 1) [''V''] None (ResolvedModule 2)] []])
     = Inr [[], [ExportedModule (ResolvedModule 2) None [''V'']], []]"
  by code_simp

theorem private_modules_not_exported_witness:
  "distinct [0, 1, 2 :: Module]
   \<and> (\<exists>tops resolved.
        topsort (buildGraph (enforcePrivacy privateExample privateBindings) [0, 1, 2]) = Inr tops
        \<and> resolveExports (enforcePrivacy privateExample privateBindings) tops = Inr resolved
        \<and> resolvedExports resolved 1 = [ExportedModule (ResolvedModule 2) None [''V'']]
        \<and> list_all (\<lambda>r. \<not> privateExample (unsafeAsModule (target r))) (resolvedExports resolved 1)
        \<and> ExportPrivateModule 1 (ExportedModule (ResolvedModule 0) None [''T''])
              \<in> set (privacyDiagnostics privateExample privateBindings 1))"
proof -
  have d: "distinct [0, 1, 2 :: Module]" by simp
  let ?tops = "[Node (ResolvedModule 0) [] [],
         Node (ResolvedModule 2) [] [Edge (ResolvedModule 1) [''V''] None (ResolvedModule 2)],
         Node (ResolvedModule 1) [Edge (ResolvedModule 1) [''V''] None (ResolvedModule 2)] []]"
  from privateExample_resolved obtain resolved where
    r: "resolveExports (enforcePrivacy privateExample privateBindings) ?tops = Inr resolved"
    and v: "map (resolvedExports resolved) [0, 1, 2]
              = [[], [ExportedModule (ResolvedModule 2) None [''V'']], []]"
    by (cases "resolveExports (enforcePrivacy privateExample privateBindings) ?tops") auto
  from v have v1: "resolvedExports resolved 1 = [ExportedModule (ResolvedModule 2) None [''V'']]"
    by simp
  have x: "ExportedModule (ResolvedModule 0) None [''T''] \<in> set (directExports privateBindings 1)"
    "namesPrivate privateExample (ExportedModule (ResolvedModule 0) None [''T''])"
    by (simp_all add: directExports_def privateBindings_def namesPrivate_def privateExample_def)
  from private_modules_not_exported[OF d privateExample_sorted r] x
  have "\<forall>r \<in> set (resolvedExports resolved 1). \<not> privateExample (unsafeAsModule (target r))"
    and "ExportPrivateModule 1 (ExportedModule (ResolvedModule 0) None [''T''])
              \<in> set (privacyDiagnostics privateExample privateBindings 1)"
    by blast+
  with d privateExample_sorted r v1 show ?thesis
    unfolding list_all_iff by blast
qed


end
